theory Spec2Isabelle
  imports Complex_Main "HOL-Library.Infinite_Set"
begin

section \<open>The two-dimensional Voronoi cell of \<^verbatim>\<open>cell_2d.cc\<close>\<close>

text \<open>
  The class \<^verbatim>\<open>voronoicell_2d\<close> keeps a polygon in two parallel arrays: \<^verbatim>\<open>pts\<close> holds the
  coordinates \<^verbatim>\<open>(x0, y0, x1, y1, ...)\<close> and \<^verbatim>\<open>ed\<close> the adjacency
  \<^verbatim>\<open>(succ0, pred0, succ1, pred1, ...)\<close>; \<^verbatim>\<open>p\<close> counts the vertices in use.

  Conventions of the embedding:
  \<^item> a C \<^verbatim>\<open>double\<close> is a \<open>real\<close>: arithmetic is exact. A query that divides by zero
    (where IEEE arithmetic leaves the finite numbers) has the outcome \<open>DivisionByZero\<close>.
    \<^verbatim>\<open>plane\<close> does not return its quotients: it stores them in \<^verbatim>\<open>pts\<close> and goes on,
    whatever the divisor, and so does the model; the slot written with a zero divisor
    holds a double that is not finite, for which the model has the value of the total
    division of \<open>real\<close>;
  \<^item> a C \<^verbatim>\<open>int\<close> is an \<open>int\<close>; the capacities are bounded by the configured maxima, so
    no index computation wraps;
  \<^item> an array is a map from indices to values together with its capacity; an access
    outside the capacity (undefined behaviour in C++) is the outcome \<open>OutOfBounds\<close>;
  \<^item> \<^verbatim>\<open>voropp_fatal_error\<close> is the outcome \<open>MemoryLimit\<close>;
  \<^item> a function with a loop that need not end returns an \<open>option\<close>: \<open>None\<close> is the
    run that never returns.
\<close>

datatype error = MemoryLimit | OutOfBounds | DivisionByZero

text \<open>
  Modelled from the spec: the compile-time constants of the header \<^verbatim>\<open>cell_2d.hh\<close> and its
  configuration, which are not part of the sources at hand. Their values are left open.
\<close>

record config =
  tolerance :: real
  max_vertices :: int
  max_delete_size :: int

record cell =
  p :: int
  current_vertices :: int
  current_delete_size :: int
  ed :: "int \<Rightarrow> int"
  pts :: "int \<Rightarrow> real"

text \<open>Vertex slot \<open>v\<close> lies inside the allocation of \<^verbatim>\<open>pts\<close> and \<^verbatim>\<open>ed\<close>
  (both hold \<^verbatim>\<open>2*current_vertices\<close> entries).\<close>

definition allocated :: "cell \<Rightarrow> int \<Rightarrow> bool" where
  "allocated c v \<longleftrightarrow> 0 \<le> v \<and> v < current_vertices c"

text \<open>
  Modelled from the spec: \<^verbatim>\<open>pos\<close> is an inline member of the absent header; the spec gives
  \<^verbatim>\<open>pos(v) = x*X(v) + y*Y(v) - rsq\<close> over the stored coordinates.
\<close>

definition pos :: "cell \<Rightarrow> real \<Rightarrow> real \<Rightarrow> real \<Rightarrow> int \<Rightarrow> real" where
  "pos c x y rsq qp = x * pts c (2 * qp) + y * pts c (2 * qp + 1) - rsq"

subsection \<open>Initialisation\<close>

definition init :: "cell \<Rightarrow> real \<Rightarrow> real \<Rightarrow> real \<Rightarrow> real \<Rightarrow> error + cell" where
  "init c xmin xmax ymin ymax =
     (if \<not> allocated c 3 then Inl OutOfBounds
      else
        let xmin = xmin * 2; xmax = xmax * 2; ymin = ymin * 2; ymax = ymax * 2
        in Inr (c\<lparr>p := 4,
                 pts := (pts c)(0 := xmin, 1 := ymin, 2 := xmax, 3 := ymin,
                                4 := xmax, 5 := ymax, 6 := xmin, 7 := ymax),
                 ed := (ed c)(0 := 1, 1 := 3, 2 := 2, 3 := 0, 4 := 3, 5 := 1, 6 := 0, 7 := 2)\<rparr>))"

subsection \<open>Queries\<close>

type_synonym 'a run = "(error + 'a) option"

function max_radius_loop :: "cell \<Rightarrow> int \<Rightarrow> real \<Rightarrow> error + real" where
  "max_radius_loop c k r =
     (if k < p c then
        (if \<not> allocated c k then Inl OutOfBounds
         else
           let s = pts c (2 * k) * pts c (2 * k);
               s = s + pts c (2 * k + 1) * pts c (2 * k + 1)
           in max_radius_loop c (k + 1) (if s > r then s else r))
      else Inr r)"
  by pat_completeness auto
termination
  by (relation "measure (\<lambda>(c, k, r). nat (p c - k))") auto

definition max_radius_squared :: "cell \<Rightarrow> error + real" where
  "max_radius_squared c =
     (if \<not> allocated c 0 then Inl OutOfBounds
      else max_radius_loop c 1 (pts c 0 * pts c 0 + pts c 1 * pts c 1))"

partial_function (option) perimeter_loop :: "cell \<Rightarrow> int \<Rightarrow> real \<Rightarrow> real run" where
  "perimeter_loop c k perim =
     (let l = ed c (2 * k) in
      if \<not> allocated c l then Some (Inl OutOfBounds)
      else
        let dx = pts c (2 * k) - pts c (2 * l);
            dy = pts c (2 * k + 1) - pts c (2 * l + 1);
            perim = perim + sqrt (dx * dx + dy * dy)
        in if l \<noteq> 0 then perimeter_loop c l perim else Some (Inr perim))"

definition perimeter :: "cell \<Rightarrow> real run" where
  "perimeter c =
     (if p c = 0 then Some (Inr 0)
      else if \<not> allocated c 0 then Some (Inl OutOfBounds)
      else map_option (map_sum id (\<lambda>perim. 0.5 * perim)) (perimeter_loop c 0 0))"

partial_function (option) area_loop ::
  "cell \<Rightarrow> real \<Rightarrow> real \<Rightarrow> int \<Rightarrow> real \<Rightarrow> real \<Rightarrow> real \<Rightarrow> real run" where
  "area_loop c x y k dx1 dy1 area =
     (if k \<noteq> 0 then
        (let dx2 = pts c (2 * k) - x; dy2 = pts c (2 * k + 1) - y;
             area = area + (dx1 * dy2 - dx2 * dy1);
             k' = ed c (2 * k)
         in if \<not> allocated c k' then Some (Inl OutOfBounds)
            else area_loop c x y k' dx2 dy2 area)
      else Some (Inr area))"

definition area :: "cell \<Rightarrow> real run" where
  "area c =
     (if p c = 0 then Some (Inr 0)
      else if \<not> allocated c 0 then Some (Inl OutOfBounds)
      else
        let k = ed c 0; x = pts c 0; y = pts c 1 in
        if \<not> allocated c k then Some (Inl OutOfBounds)
        else
          let dx1 = pts c (2 * k) - x; dy1 = pts c (2 * k + 1) - y; k = ed c (2 * k) in
          if \<not> allocated c k then Some (Inl OutOfBounds)
          else map_option (map_sum id (\<lambda>area. 0.125 * area)) (area_loop c x y k dx1 dy1 0))"

text \<open>The loop of \<^verbatim>\<open>centroid\<close> returns its three accumulators \<^verbatim>\<open>(tarea, cx, cy)\<close>.\<close>

partial_function (option) centroid_loop ::
  "cell \<Rightarrow> real \<Rightarrow> real \<Rightarrow> int \<Rightarrow> real \<Rightarrow> real \<Rightarrow> real \<Rightarrow> real \<Rightarrow> real \<Rightarrow> (real \<times> real \<times> real) run"
  where
  "centroid_loop c x y k dx1 dy1 tarea cx cy =
     (if k \<noteq> 0 then
        (let dx2 = pts c (2 * k) - x; dy2 = pts c (2 * k + 1) - y;
             area = dx1 * dy2 - dx2 * dy1;
             tarea = tarea + area;
             cx = cx + area * (dx1 + dx2);
             cy = cy + area * (dy1 + dy2);
             k' = ed c (2 * k)
         in if \<not> allocated c k' then Some (Inl OutOfBounds)
            else centroid_loop c x y k' dx2 dy2 tarea cx cy)
      else Some (Inr (tarea, cx, cy)))"

definition third :: real where
  "third = 1 / 3.0"

definition centroid_finish :: "real \<Rightarrow> real \<Rightarrow> real \<times> real \<times> real \<Rightarrow> error + real \<times> real" where
  "centroid_finish x y acc =
     (case acc of (tarea, cx, cy) \<Rightarrow>
        if tarea = 0 then Inl DivisionByZero
        else
          let tarea = third / tarea
          in Inr (0.5 * (x + cx * tarea), 0.5 * (y + cy * tarea)))"

definition centroid :: "cell \<Rightarrow> (real \<times> real) run" where
  "centroid c =
     (if p c = 0 then Some (Inr (0, 0))
      else if \<not> allocated c 0 then Some (Inl OutOfBounds)
      else
        let k = ed c 0; x = pts c 0; y = pts c 1 in
        if \<not> allocated c k then Some (Inl OutOfBounds)
        else
          let dx1 = pts c (2 * k) - x; dy1 = pts c (2 * k + 1) - y; k = ed c (2 * k) in
          if \<not> allocated c k then Some (Inl OutOfBounds)
          else
            (case centroid_loop c x y k dx1 dy1 0 0 0 of
               None \<Rightarrow> None
             | Some (Inl e) \<Rightarrow> Some (Inl e)
             | Some (Inr acc) \<Rightarrow> Some (centroid_finish x y acc)))"

subsection \<open>Custom output\<close>

text \<open>
  What \<^verbatim>\<open>output_custom\<close> hands to the stream: a character (\<^verbatim>\<open>putc\<close>, and the literal
  characters of a \<^verbatim>\<open>fprintf\<close> format), an integer printed with \<^verbatim>\<open>%d\<close>, or a double
  printed with \<^verbatim>\<open>%g\<close>. \<open>NotFinite\<close> is a \<^verbatim>\<open>%g\<close> of a value that is no finite number:
  where \<^verbatim>\<open>centroid\<close> divides by zero, the C++ goes on with an infinity or a NaN and
  \<^verbatim>\<open>fprintf\<close> prints it. The format is the list of the characters before the terminating
  NUL of the C string, so reading at the end of the list reads that NUL.
\<close>

datatype out_item = Chr char | Decimal int | General real | NotFinite

text \<open>The value a query hands to \<^verbatim>\<open>fprintf\<close>; \<open>None\<close> is the value that is not finite.\<close>

definition printable :: "'a run \<Rightarrow> 'a option run" where
  "printable q =
     (case q of
        None \<Rightarrow> None
      | Some (Inl DivisionByZero) \<Rightarrow> Some (Inr None)
      | Some (Inl e) \<Rightarrow> Some (Inl e)
      | Some (Inr v) \<Rightarrow> Some (Inr (Some v)))"

definition then_emit :: "'a run \<Rightarrow> ('a \<Rightarrow> out_item list) \<Rightarrow> out_item list run \<Rightarrow> out_item list run"
  where
  "then_emit q f rest =
     (case q of
        None \<Rightarrow> None
      | Some (Inl e) \<Rightarrow> Some (Inl e)
      | Some (Inr v) \<Rightarrow> map_option (map_sum id (\<lambda>out. f v @ out)) rest)"

definition newline :: char where
  "newline = CHR 0x0A"

definition nul :: char where
  "nul = CHR 0x00"

definition percent :: char where
  "percent = CHR ''%''"

text \<open>One control sequence \<^verbatim>\<open>%X\<close>, followed by the output \<open>rest\<close> of the remaining format.\<close>

definition control ::
  "cell \<Rightarrow> int \<Rightarrow> real \<Rightarrow> real \<Rightarrow> real \<Rightarrow> char \<Rightarrow> out_item list run \<Rightarrow> out_item list run" where
  "control c i x y r d rest =
     (if d = CHR ''i'' then then_emit (Some (Inr ())) (\<lambda>_. [Decimal i]) rest
      else if d = CHR ''x'' then then_emit (Some (Inr ())) (\<lambda>_. [General x]) rest
      else if d = CHR ''y'' then then_emit (Some (Inr ())) (\<lambda>_. [General y]) rest
      else if d = CHR ''q'' then
        then_emit (Some (Inr ())) (\<lambda>_. [General x, Chr CHR '' '', General y]) rest
      else if d = CHR ''r'' then then_emit (Some (Inr ())) (\<lambda>_. [General r]) rest
      else if d = CHR ''w'' then then_emit (Some (Inr ())) (\<lambda>_. [Decimal (p c)]) rest
      else if d = CHR ''m'' then
        then_emit (Some (max_radius_squared c)) (\<lambda>m. [General (0.25 * m)]) rest
      else if d = CHR ''p'' then then_emit (perimeter c) (\<lambda>v. [General v]) rest
      else if d = CHR ''a'' then then_emit (area c) (\<lambda>v. [General v]) rest
      else if d = CHR ''c'' then
        then_emit (printable (centroid c))
          (\<lambda>v. case v of
                 None \<Rightarrow> [NotFinite, Chr CHR '' '', NotFinite]
               | Some (cx, cy) \<Rightarrow> [General cx, Chr CHR '' '', General cy]) rest
      else if d = CHR ''C'' then
        then_emit (printable (centroid c))
          (\<lambda>v. case v of
                 None \<Rightarrow> [NotFinite, Chr CHR '' '', NotFinite]
               | Some (cx, cy) \<Rightarrow> [General (x + cx), Chr CHR '' '', General (y + cy)]) rest
      else then_emit (Some (Inr ())) (\<lambda>_. [Chr percent, Chr d]) rest)"

text \<open>
  The loop \<^verbatim>\<open>while(*fmp!=0)\<close>. At a \<^verbatim>\<open>%\<close> the pointer moves on and the switch reads the
  next character; when that is the terminating NUL, \<^verbatim>\<open>case 0\<close> moves the pointer back,
  the \<^verbatim>\<open>fmp++\<close> after the switch puts it on the NUL again, and the loop ends.
\<close>

fun format_loop :: "cell \<Rightarrow> int \<Rightarrow> real \<Rightarrow> real \<Rightarrow> real \<Rightarrow> string \<Rightarrow> out_item list run" where
  "format_loop c i x y r [] = Some (Inr [])"
| "format_loop c i x y r [ch] =
     (if ch = nul then Some (Inr [])
      else if ch = percent then Some (Inr [])
      else Some (Inr [Chr ch]))"
| "format_loop c i x y r (ch # d # fmp) =
     (if ch = nul then Some (Inr [])
      else if ch = percent then
        (if d = nul then Some (Inr [])
         else control c i x y r d (format_loop c i x y r fmp))
      else then_emit (Some (Inr ())) (\<lambda>_. [Chr ch]) (format_loop c i x y r (d # fmp)))"

definition output_custom ::
  "cell \<Rightarrow> string \<Rightarrow> int \<Rightarrow> real \<Rightarrow> real \<Rightarrow> real \<Rightarrow> out_item list run" where
  "output_custom c format i x y r =
     map_option (map_sum id (\<lambda>out. out @ [Chr newline])) (format_loop c i x y r format)"

subsection \<open>Growing the arrays\<close>

text \<open>
  Both routines copy the entries in use into an array of twice the size. The copy leaves
  the map as it is; the entries beyond the old capacity are indeterminate in C++ and are
  whatever the map holds there.
\<close>

definition add_memory_vertices :: "config \<Rightarrow> cell \<Rightarrow> error + cell" where
  "add_memory_vertices cfg c =
     (let n = 2 * current_vertices c
      in if n > max_vertices cfg then Inl MemoryLimit else Inr (c\<lparr>current_vertices := n\<rparr>))"

definition add_memory_ds :: "config \<Rightarrow> cell \<Rightarrow> error + cell" where
  "add_memory_ds cfg c =
     (let n = 2 * current_delete_size c
      in if n > max_delete_size cfg then Inl MemoryLimit
         else Inr (c\<lparr>current_delete_size := n\<rparr>))"

text \<open>
  The delete stack is the list of the entries between \<^verbatim>\<open>ds\<close> and \<^verbatim>\<open>stackp\<close>, the top
  first; \<^verbatim>\<open>stackp==stacke\<close> says that its length is \<^verbatim>\<open>current_delete_size\<close>.
  \<open>push\<close> is \<^verbatim>\<open>if(stackp==stacke) add_memory_ds(stackp); *(stackp++)=v;\<close>.
\<close>

definition push :: "config \<Rightarrow> cell \<Rightarrow> int list \<Rightarrow> int \<Rightarrow> error + cell \<times> int list" where
  "push cfg c stack v =
     (case (if int (length stack) = current_delete_size c then add_memory_ds cfg c else Inr c) of
        Inl e \<Rightarrow> Inl e
      | Inr c' \<Rightarrow>
          if int (length stack) < current_delete_size c' then Inr (c', v # stack)
          else Inl OutOfBounds)"

subsection \<open>The cutting routine \<^verbatim>\<open>plane\<close>\<close>

text \<open>The search for a vertex that is not strictly inside: either the routine returns
  true at once (\<open>NotCut\<close>), or leaves vertex \<open>up\<close> with its value \<open>u\<close>.\<close>

datatype found = NotCut | Found int real

partial_function (option) find_succ ::
  "config \<Rightarrow> cell \<Rightarrow> real \<Rightarrow> real \<Rightarrow> real \<Rightarrow> int \<Rightarrow> int \<Rightarrow> real \<Rightarrow> found run" where
  "find_succ cfg c x y rsq up3 up2 u2 =
     (if u2 < tolerance cfg then
        (let up2' = ed c (2 * up2) in
         if \<not> allocated c up2' then Some (Inl OutOfBounds)
         else
           let u2' = pos c x y rsq up2' in
           if up2' = up3 then Some (Inr NotCut)
           else find_succ cfg c x y rsq up3 up2' u2')
      else Some (Inr (Found up2 u2)))"

partial_function (option) find_pred ::
  "config \<Rightarrow> cell \<Rightarrow> real \<Rightarrow> real \<Rightarrow> real \<Rightarrow> int \<Rightarrow> int \<Rightarrow> real \<Rightarrow> found run" where
  "find_pred cfg c x y rsq up2 up3 u3 =
     (if u3 < tolerance cfg then
        (let up3' = ed c (2 * up3 + 1) in
         if \<not> allocated c up3' then Some (Inl OutOfBounds)
         else
           let u3' = pos c x y rsq up3' in
           if up2 = up3' then Some (Inr NotCut)
           else find_pred cfg c x y rsq up2 up3' u3')
      else Some (Inr (Found up3 u3)))"

definition find_vertex :: "config \<Rightarrow> cell \<Rightarrow> real \<Rightarrow> real \<Rightarrow> real \<Rightarrow> found run" where
  "find_vertex cfg c x y rsq =
     (if \<not> allocated c 0 then Some (Inl OutOfBounds)
      else
        let up = 0; u = pos c x y rsq up in
        if u < tolerance cfg then
          (let up2 = ed c (2 * up) in
           if \<not> allocated c up2 then Some (Inl OutOfBounds)
           else
             let u2 = pos c x y rsq up2; up3 = ed c (2 * up + 1) in
             if \<not> allocated c up3 then Some (Inl OutOfBounds)
             else
               let u3 = pos c x y rsq up3 in
               if u2 > u3 then find_succ cfg c x y rsq up3 up2 u2
               else find_pred cfg c x y rsq up2 up3 u3)
        else Some (Inr (Found up u)))"

text \<open>The first sweep: \<open>Clipped\<close> is \<^verbatim>\<open>return false\<close>; \<open>Swept c stack up2 l u2\<close>
  is the state when the loop ends.\<close>

datatype sweep = Clipped cell | Swept cell "int list" int real real

partial_function (option) sweep_succ ::
  "config \<Rightarrow> real \<Rightarrow> real \<Rightarrow> real \<Rightarrow> int \<Rightarrow> cell \<Rightarrow> int list \<Rightarrow> int \<Rightarrow> real \<Rightarrow> real \<Rightarrow> sweep run"
  where
  "sweep_succ cfg x y rsq up c stack up2 l u2 =
     (if u2 > tolerance cfg then
        (case push cfg c stack up2 of
           Inl e \<Rightarrow> Some (Inl e)
         | Inr (c', stack') \<Rightarrow>
             let up2' = ed c' (2 * up2) in
             if \<not> allocated c' up2' then Some (Inl OutOfBounds)
             else
               let l' = u2; u2' = pos c' x y rsq up2' in
               if up2' = up then Some (Inr (Clipped c'))
               else sweep_succ cfg x y rsq up c' stack' up2' l' u2')
      else Some (Inr (Swept c stack up2 l u2)))"

text \<open>The second sweep ends by its condition or by \<^verbatim>\<open>break\<close>, with
  \<^verbatim>\<open>(stack, up3, l, u3)\<close> either way.\<close>

partial_function (option) sweep_pred ::
  "config \<Rightarrow> real \<Rightarrow> real \<Rightarrow> real \<Rightarrow> int \<Rightarrow> cell \<Rightarrow> int list \<Rightarrow> int \<Rightarrow> real \<Rightarrow> real
     \<Rightarrow> (cell \<times> int list \<times> int \<times> real \<times> real) run"
  where
  "sweep_pred cfg x y rsq up2 c stack up3 l u3 =
     (if u3 > tolerance cfg then
        (case push cfg c stack up3 of
           Inl e \<Rightarrow> Some (Inl e)
         | Inr (c', stack') \<Rightarrow>
             let up3' = ed c' (2 * up3 + 1) in
             if \<not> allocated c' up3' then Some (Inl OutOfBounds)
             else
               let l' = u3; u3' = pos c' x y rsq up3' in
               if up3' = up2 then Some (Inr (c', stack', up3', l', u3'))
               else sweep_pred cfg x y rsq up2 c' stack' up3' l' u3')
      else Some (Inr (c, stack, up3, l, u3)))"

definition grow_if_full :: "config \<Rightarrow> cell \<Rightarrow> error + cell" where
  "grow_if_full cfg c = (if p c = current_vertices c then add_memory_vertices cfg c else Inr c)"

text \<open>The vertex on the clockwise side: the cell after it, and \<^verbatim>\<open>cp\<close>. The divisor
  \<^verbatim>\<open>u2-l\<close> is not tested.\<close>

definition cut_succ :: "config \<Rightarrow> cell \<Rightarrow> int \<Rightarrow> real \<Rightarrow> real \<Rightarrow> error + cell \<times> int" where
  "cut_succ cfg c up2 l u2 =
     (if u2 > - tolerance cfg then Inr (c, up2)
      else
        (case grow_if_full cfg c of
           Inl e \<Rightarrow> Inl e
         | Inr c \<Rightarrow>
             let lp = ed c (2 * up2 + 1); fac = 1 / (u2 - l) in
             if \<not> allocated c lp \<or> \<not> allocated c (p c) then Inl OutOfBounds
             else
               let c = c\<lparr>pts := (pts c)(2 * p c :=
                          (pts c (2 * lp) * u2 - pts c (2 * up2) * l) * fac)\<rparr>;
                   c = c\<lparr>pts := (pts c)(2 * p c + 1 :=
                          (pts c (2 * lp + 1) * u2 - pts c (2 * up2 + 1) * l) * fac)\<rparr>;
                   c = c\<lparr>ed := (ed c)(2 * p c := up2)\<rparr>;
                   c = c\<lparr>ed := (ed c)(2 * up2 + 1 := p c)\<rparr>
               in Inr (c\<lparr>p := p c + 1\<rparr>, p c)))"

text \<open>The vertex on the counter-clockwise side, joined to \<^verbatim>\<open>cp\<close>. The divisor
  \<^verbatim>\<open>u3-l\<close> is not tested: it is zero when \<^verbatim>\<open>up\<close> and \<^verbatim>\<open>up3\<close> both lie at the tolerance.\<close>

definition cut_pred :: "config \<Rightarrow> cell \<Rightarrow> int \<Rightarrow> int \<Rightarrow> real \<Rightarrow> real \<Rightarrow> error + cell" where
  "cut_pred cfg c cp up3 l u3 =
     (if u3 > tolerance cfg then
        (let c = c\<lparr>ed := (ed c)(2 * cp + 1 := up3)\<rparr>;
             c = c\<lparr>ed := (ed c)(2 * up3 := cp)\<rparr>
         in Inr c)
      else
        (case grow_if_full cfg c of
           Inl e \<Rightarrow> Inl e
         | Inr c \<Rightarrow>
             let lp = ed c (2 * up3); fac = 1 / (u3 - l) in
             if \<not> allocated c lp \<or> \<not> allocated c (p c) then Inl OutOfBounds
             else
               let c = c\<lparr>pts := (pts c)(2 * p c :=
                          (pts c (2 * lp) * u3 - pts c (2 * up3) * l) * fac)\<rparr>;
                   c = c\<lparr>pts := (pts c)(2 * p c + 1 :=
                          (pts c (2 * lp + 1) * u3 - pts c (2 * up3 + 1) * l) * fac)\<rparr>;
                   c = c\<lparr>ed := (ed c)(2 * p c := cp)\<rparr>;
                   c = c\<lparr>ed := (ed c)(2 * cp + 1 := p c)\<rparr>;
                   c = c\<lparr>ed := (ed c)(2 * p c + 1 := up3)\<rparr>;
                   c = c\<lparr>ed := (ed c)(2 * up3 := p c)\<rparr>
               in Inr (c\<lparr>p := p c + 1\<rparr>)))"

text \<open>\<^verbatim>\<open>for(int *sp=ds;sp<stackp;sp++) ed[*sp*2]=-1;\<close> runs from the bottom of the
  stack, the last element of the list.\<close>

definition mark :: "int list \<Rightarrow> cell \<Rightarrow> cell" where
  "mark stack c = c\<lparr>ed := foldr (\<lambda>sp e. e(sp * 2 := - 1)) stack (ed c)\<rparr>"

text \<open>\<^verbatim>\<open>while(ed[2*--p]==-1);\<close> started with \<^verbatim>\<open>p = q\<close>: the value of \<^verbatim>\<open>p\<close> after it.\<close>

function scan :: "cell \<Rightarrow> int \<Rightarrow> error + int" where
  "scan c q =
     (let q' = q - 1 in
      if \<not> allocated c q' then Inl OutOfBounds
      else if ed c (2 * q') = - 1 then scan c q'
      else Inr q')"
  by pat_completeness auto
termination
  by (relation "measure (\<lambda>(c, q). nat q)") (auto simp: allocated_def)

text \<open>\<^verbatim>\<open>while(stackp>ds)\<close>: one round for each entry of the stack, from the top.\<close>

fun compact :: "cell \<Rightarrow> int list \<Rightarrow> error + cell" where
  "compact c [] = Inr c"
| "compact c (up # stack) =
     (case scan c (p c) of
        Inl e \<Rightarrow> Inl e
      | Inr q \<Rightarrow>
          let c = c\<lparr>p := q\<rparr> in
          if up < q then
            (if \<not> allocated c up then Inl OutOfBounds
             else
               let s = ed c (2 * q) in
               if \<not> allocated c s then Inl OutOfBounds
               else
                 let c = c\<lparr>ed := (ed c)(2 * s + 1 := up)\<rparr>;
                     r = ed c (2 * q + 1) in
                 if \<not> allocated c r then Inl OutOfBounds
                 else
                   let c = c\<lparr>ed := (ed c)(2 * r := up)\<rparr>;
                       c = c\<lparr>pts := (pts c)(2 * up := pts c (2 * q))\<rparr>;
                       c = c\<lparr>pts := (pts c)(2 * up + 1 := pts c (2 * q + 1))\<rparr>;
                       c = c\<lparr>ed := (ed c)(2 * up := ed c (2 * q))\<rparr>;
                       c = c\<lparr>ed := (ed c)(2 * up + 1 := ed c (2 * q + 1))\<rparr>
                   in compact c stack)
          else compact (c\<lparr>p := q + 1\<rparr>) stack)"

text \<open>Everything after the first sweep: the two new vertices, the second sweep, the
  marking and the compaction. \<open>up\<close> and \<open>u\<close> are the vertex found at the start.\<close>

definition splice ::
  "config \<Rightarrow> real \<Rightarrow> real \<Rightarrow> real \<Rightarrow> int \<Rightarrow> real \<Rightarrow> cell \<Rightarrow> int list \<Rightarrow> int \<Rightarrow> real \<Rightarrow> real
     \<Rightarrow> cell run" where
  "splice cfg x y rsq up u c stack up2 l u2 =
     (case cut_succ cfg c up2 l u2 of
        Inl e \<Rightarrow> Some (Inl e)
      | Inr (c, cp) \<Rightarrow>
          let l = u; up3 = ed c (2 * up + 1) in
          if \<not> allocated c up3 then Some (Inl OutOfBounds)
          else
            let u3 = pos c x y rsq up3 in
            (case sweep_pred cfg x y rsq up2 c stack up3 l u3 of
               None \<Rightarrow> None
             | Some (Inl e) \<Rightarrow> Some (Inl e)
             | Some (Inr (c, stack, up3, l, u3)) \<Rightarrow>
                 (case cut_pred cfg c cp up3 l u3 of
                    Inl e \<Rightarrow> Some (Inl e)
                  | Inr c \<Rightarrow> Some (compact (mark stack c) stack))))"

definition plane :: "config \<Rightarrow> cell \<Rightarrow> real \<Rightarrow> real \<Rightarrow> real \<Rightarrow> (bool \<times> cell) run" where
  "plane cfg c x y rsq =
     (case find_vertex cfg c x y rsq of
        None \<Rightarrow> None
      | Some (Inl e) \<Rightarrow> Some (Inl e)
      | Some (Inr NotCut) \<Rightarrow> Some (Inr (True, c))
      | Some (Inr (Found up u)) \<Rightarrow>
          if current_delete_size c < 1 then Some (Inl OutOfBounds)
          else
            let stack = [up]; l = u; up2 = ed c (2 * up) in
            if \<not> allocated c up2 then Some (Inl OutOfBounds)
            else
              let u2 = pos c x y rsq up2 in
              (case sweep_succ cfg x y rsq up c stack up2 l u2 of
                 None \<Rightarrow> None
               | Some (Inl e) \<Rightarrow> Some (Inl e)
               | Some (Inr (Clipped c')) \<Rightarrow> Some (Inr (False, c'))
               | Some (Inr (Swept c' stack up2 l u2)) \<Rightarrow>
                   map_option (map_sum id (\<lambda>c''. (True, c'')))
                     (splice cfg x y rsq up u c' stack up2 l u2)))"

subsection \<open>Cells and formats used as concrete inputs\<close>

text \<open>A cell of capacity four whose arrays hold zeros, before \<^verbatim>\<open>init\<close>.\<close>

definition blank :: cell where
  "blank = \<lparr>p = 0, current_vertices = 4, current_delete_size = 1,
     ed = (\<lambda>_. 0), pts = (\<lambda>_. 0)\<rparr>"

text \<open>The cell that \<^verbatim>\<open>init(-1,1,-1,1)\<close> leaves in \<open>blank\<close>.\<close>

definition seed :: cell where
  "seed = \<lparr>p = 4, current_vertices = 4, current_delete_size = 1,
     ed = (\<lambda>_. 0)(0 := 1, 1 := 3, 2 := 2, 3 := 0, 4 := 3, 5 := 1, 6 := 0, 7 := 2),
     pts = (\<lambda>_. 0)(0 := - 2, 1 := - 2, 2 := 2, 3 := - 2, 4 := 2, 5 := 2, 6 := - 2, 7 := 2)\<rparr>"

text \<open>The rectangle with a fifth vertex that is its own successor and predecessor: P1 and
  P3 hold, P2 does not.\<close>

definition stray :: cell where
  "stray = seed\<lparr>p := 5, current_vertices := 8, ed := (ed seed)(8 := 4, 9 := 4)\<rparr>"

text \<open>
  The scan of a format ends between two control sequences: a \<^verbatim>\<open>%\<close> appended to such a
  format is read as the start of a control sequence, not as the character after a \<^verbatim>\<open>%\<close>.
\<close>

fun boundary :: "string \<Rightarrow> bool" where
  "boundary [] = True"
| "boundary [ch] = (ch \<noteq> percent)"
| "boundary (ch # d # fmp) = (if ch = percent then boundary fmp else boundary (d # fmp))"

subsection \<open>The adjacency invariants\<close>

text \<open>The successor and the predecessor of a vertex, and the indices in use.\<close>

definition succ_of :: "cell \<Rightarrow> int \<Rightarrow> int" where
  "succ_of c v = ed c (2 * v)"

definition pred_of :: "cell \<Rightarrow> int \<Rightarrow> int" where
  "pred_of c v = ed c (2 * v + 1)"

definition live :: "cell \<Rightarrow> int set" where
  "live c = {0..<p c}"

text \<open>P1, cyclic adjacency; P3, no stale indices; P2, a single cycle through vertex 0.\<close>

definition cyclic_adjacency :: "cell \<Rightarrow> bool" where
  "cyclic_adjacency c \<longleftrightarrow>
     (\<forall>v\<in>live c. succ_of c (pred_of c v) = v \<and> pred_of c (succ_of c v) = v)"

definition no_stale :: "cell \<Rightarrow> bool" where
  "no_stale c \<longleftrightarrow> (\<forall>v\<in>live c. succ_of c v \<in> live c \<and> pred_of c v \<in> live c)"

definition single_cycle :: "cell \<Rightarrow> bool" where
  "single_cycle c \<longleftrightarrow> (\<forall>v\<in>live c. \<exists>k. (succ_of c ^^ k) 0 = v)"

text \<open>A cell as the routines leave it: not empty, within its allocation, and with the
  three adjacency invariants.\<close>

definition well_formed :: "cell \<Rightarrow> bool" where
  "well_formed c \<longleftrightarrow>
     0 < p c \<and> p c \<le> current_vertices c \<and> cyclic_adjacency c \<and> no_stale c \<and> single_cycle c"

text \<open>
  The state of the first sweep, started at \<open>up\<close>: the stack holds \<open>up\<close> and the
  vertices after it, one after the other, and \<open>up2\<close> is the next, not yet on the stack.
\<close>

definition succ_arc :: "cell \<Rightarrow> int \<Rightarrow> int list \<Rightarrow> int \<Rightarrow> bool" where
  "succ_arc c up stack up2 \<longleftrightarrow>
     distinct stack \<and> set stack \<subseteq> live c \<and> up \<in> set stack \<and> up2 \<in> live c
     \<and> up2 \<notin> set stack \<and> pred_of c up2 \<in> set stack
     \<and> (\<forall>d\<in>set stack. succ_of c d \<in> insert up2 (set stack) \<and> succ_of c d \<noteq> up
           \<and> (d \<noteq> up \<longrightarrow> pred_of c d \<in> set stack))"

text \<open>What a call of \<^verbatim>\<open>plane\<close> returned and the vertex count it left, if it returned.\<close>

definition flag_and_count :: "(bool \<times> cell) run \<Rightarrow> (bool \<times> int) option" where
  "flag_and_count r = (case r of Some (Inr (b, c)) \<Rightarrow> Some (b, p c) | _ \<Rightarrow> None)"

text \<open>On the set \<open>A\<close> the maps \<open>s\<close> and \<open>r\<close> are inverse to each other, stay inside \<open>A\<close>
  and \<open>s\<close> has no fixed point.\<close>

definition closed_on :: "(int \<Rightarrow> int) \<Rightarrow> (int \<Rightarrow> int) \<Rightarrow> int set \<Rightarrow> bool" where
  "closed_on s r A \<longleftrightarrow>
     (\<forall>v\<in>A. s v \<in> A \<and> r v \<in> A \<and> r (s v) = v \<and> s (r v) = v \<and> s v \<noteq> v)"

text \<open>Every element of \<open>A\<close> is reached from every other by repeating \<open>s\<close>; with
  \<open>closed_on\<close> this says that \<open>A\<close> is one cycle of \<open>s\<close>.\<close>

definition transitive_on :: "(int \<Rightarrow> int) \<Rightarrow> int set \<Rightarrow> bool" where
  "transitive_on s A \<longleftrightarrow> (\<forall>x\<in>A. \<forall>v\<in>A. \<exists>k. (s ^^ k) x = v)"

definition cycle_on :: "(int \<Rightarrow> int) \<Rightarrow> (int \<Rightarrow> int) \<Rightarrow> int set \<Rightarrow> bool" where
  "cycle_on s r A \<longleftrightarrow> closed_on s r A \<and> transitive_on s A"

text \<open>The state of the second sweep: the stack holds an arc of the cycle that ends just
  before \<open>up2\<close> and starts just after \<open>up3\<close>.\<close>

definition pred_arc :: "cell \<Rightarrow> int \<Rightarrow> int list \<Rightarrow> int \<Rightarrow> bool" where
  "pred_arc c up2 stack up3 \<longleftrightarrow>
     distinct stack \<and> set stack \<subseteq> live c \<and> up2 \<in> live c \<and> up3 \<in> live c
     \<and> up2 \<notin> set stack \<and> up3 \<notin> set stack
     \<and> pred_of c up2 \<in> set stack \<and> succ_of c up3 \<in> set stack
     \<and> (\<forall>d\<in>set stack. succ_of c d \<in> insert up2 (set stack)
           \<and> pred_of c d \<in> insert up3 (set stack))"

text \<open>The cell \<open>c2\<close> holds what \<open>c\<close> holds for the vertices of \<open>c\<close>, the predecessor of
  \<open>up2\<close> apart, in arrays that are not smaller.\<close>

definition agrees :: "cell \<Rightarrow> int \<Rightarrow> cell \<Rightarrow> bool" where
  "agrees c up2 c2 \<longleftrightarrow>
     current_vertices c \<le> current_vertices c2
     \<and> (\<forall>v\<in>live c. ed c2 (2 * v) = ed c (2 * v)
           \<and> (v \<noteq> up2 \<longrightarrow> ed c2 (2 * v + 1) = ed c (2 * v + 1))
           \<and> pts c2 (2 * v) = pts c (2 * v) \<and> pts c2 (2 * v + 1) = pts c (2 * v + 1))"

text \<open>The invariant of the compaction: the entries of the stack below \<^verbatim>\<open>p\<close> are marked,
  and the other vertices below \<^verbatim>\<open>p\<close> form one cycle.\<close>

definition compact_inv :: "cell \<Rightarrow> int list \<Rightarrow> bool" where
  "compact_inv c stack \<longleftrightarrow>
     distinct stack \<and> p c \<le> current_vertices c
     \<and> (\<forall>d\<in>set stack. 0 \<le> d \<and> (d < p c \<longrightarrow> ed c (2 * d) = - 1))
     \<and> {0..<p c} - set stack \<noteq> {}
     \<and> cycle_on (succ_of c) (pred_of c) ({0..<p c} - set stack)"

text \<open>A query on the cell that a call of \<^verbatim>\<open>plane\<close> left.\<close>

definition after_plane :: "(bool \<times> cell) run \<Rightarrow> (cell \<Rightarrow> 'a run) \<Rightarrow> 'a run" where
  "after_plane r q =
     (case r of None \<Rightarrow> None | Some (Inl e) \<Rightarrow> Some (Inl e) | Some (Inr (b, c)) \<Rightarrow> q c)"

text \<open>The coordinates stored for vertex \<open>v\<close>, as a query.\<close>

definition stored :: "int \<Rightarrow> cell \<Rightarrow> (real \<times> real) run" where
  "stored v c = Some (Inr (pts c (2 * v), pts c (2 * v + 1)))"

text \<open>The successor and the predecessor stored for vertex \<open>v\<close>, as a query.\<close>

definition links :: "int \<Rightarrow> cell \<Rightarrow> (int \<times> int) run" where
  "links v c = Some (Inr (ed c (2 * v), ed c (2 * v + 1)))"

text \<open>A cell the queries are meant for: well formed, or empty with slot 0 allocated.\<close>

definition usable :: "cell \<Rightarrow> bool" where
  "usable c \<longleftrightarrow> well_formed c \<or> (p c = 0 \<and> allocated c 0)"

text \<open>A configuration for the concrete runs.\<close>

definition cfg0 :: config where
  "cfg0 = \<lparr>tolerance = 1 / 10000000000, max_vertices = 16, max_delete_size = 16\<rparr>"

section \<open>Initialisation and the queries\<close>

text \<open>The equations of the two loops with a termination proof are unfolded by hand.\<close>

declare scan.simps [simp del] max_radius_loop.simps [simp del]


text \<open>
  C7. \<^verbatim>\<open>init(xmin, xmax, ymin, ymax)\<close> sets \<^verbatim>\<open>p = 4\<close>, stores the corners
  \<^verbatim>\<open>(xmin,ymin)\<close>, \<^verbatim>\<open>(xmax,ymin)\<close>, \<^verbatim>\<open>(xmax,ymax)\<close>, \<^verbatim>\<open>(xmin,ymax)\<close> in this order, every
  coordinate doubled, and makes the adjacency the 4-cycle with successors \<^verbatim>\<open>(1,2,3,0)\<close>
  and predecessors \<^verbatim>\<open>(3,0,1,2)\<close>, for all arguments. The arrays must hold four vertices,
  which the stores of \<^verbatim>\<open>init\<close> take for granted.
\<close>

theorem init_rectangle:
  assumes "allocated c 3"
  shows "\<exists>c'. init c xmin xmax ymin ymax = Inr c' \<and> p c' = 4
     \<and> pts c' 0 = 2 * xmin \<and> pts c' 1 = 2 * ymin
     \<and> pts c' 2 = 2 * xmax \<and> pts c' 3 = 2 * ymin
     \<and> pts c' 4 = 2 * xmax \<and> pts c' 5 = 2 * ymax
     \<and> pts c' 6 = 2 * xmin \<and> pts c' 7 = 2 * ymax
     \<and> ed c' 0 = 1 \<and> ed c' 2 = 2 \<and> ed c' 4 = 3 \<and> ed c' 6 = 0
     \<and> ed c' 1 = 3 \<and> ed c' 3 = 0 \<and> ed c' 5 = 1 \<and> ed c' 7 = 2"
  using assms by (simp add: init_def Let_def)

theorem init_rectangle_witness:
  "allocated blank 3 \<and> init blank 0 1 0 3 = Inr (blank\<lparr>p := 4,
      pts := (\<lambda>_. 0)(2 := 2, 4 := 2, 5 := 6, 7 := 6),
      ed := (\<lambda>_. 0)(0 := 1, 1 := 3, 2 := 2, 4 := 3, 5 := 1, 7 := 2)\<rparr>)"
  using init_rectangle [of blank 0 1 0 3]
  by (auto simp add: blank_def allocated_def init_def fun_eq_iff)

lemma allocated_after_init:
  assumes "allocated c 3"
  shows "allocated (c\<lparr>p := a, pts := b, ed := d\<rparr>) 0"
    and "allocated (c\<lparr>p := a, pts := b, ed := d\<rparr>) 1"
    and "allocated (c\<lparr>p := a, pts := b, ed := d\<rparr>) 2"
    and "allocated (c\<lparr>p := a, pts := b, ed := d\<rparr>) 3"
  using assms by (simp_all add: allocated_def)

text \<open>
  C8. After \<^verbatim>\<open>init(-1, 1, -1, 1)\<close> the cell has \<^verbatim>\<open>p = 4\<close>, \<^verbatim>\<open>area()\<close> is 4,
  \<^verbatim>\<open>perimeter()\<close> is 8, \<^verbatim>\<open>centroid()\<close> is \<^verbatim>\<open>(0, 0)\<close> and \<^verbatim>\<open>max_radius_squared()\<close> is 8,
  a quarter of which is 2.
\<close>

theorem seed_rectangle_queries:
  assumes "allocated c 3"
  shows "\<exists>c'. init c (- 1) 1 (- 1) 1 = Inr c' \<and> p c' = 4 \<and> area c' = Some (Inr 4)
     \<and> perimeter c' = Some (Inr 8) \<and> centroid c' = Some (Inr (0, 0))
     \<and> max_radius_squared c' = Inr 8
     \<and> map_sum id (\<lambda>m. m / 4) (max_radius_squared c') = Inr 2"
proof -
  let ?c = "c\<lparr>p := 4,
     pts := (pts c)(0 := - 2, 1 := - 2, 2 := 2, 3 := - 2, 4 := 2, 5 := 2, 6 := - 2, 7 := 2),
     ed := (ed c)(0 := 1, 1 := 3, 2 := 2, 3 := 0, 4 := 3, 5 := 1, 6 := 0, 7 := 2)\<rparr>"
  note al = allocated_after_init [OF assms]
  have i: "init c (- 1) 1 (- 1) 1 = Inr ?c"
    using assms by (simp add: init_def)
  have a: "area ?c = Some (Inr 4)"
    by (simp add: area_def area_loop.simps al Let_def)
  have pe: "perimeter ?c = Some (Inr 8)"
    by (simp add: perimeter_def perimeter_loop.simps al Let_def)
  have ce: "centroid ?c = Some (Inr (0, 0))"
    by (simp add: centroid_def centroid_loop.simps centroid_finish_def third_def al Let_def)
  have m: "max_radius_squared ?c = Inr 8"
    by (simp add: max_radius_squared_def max_radius_loop.simps al)
  show ?thesis
    using i a pe ce m by simp
qed

theorem seed_rectangle_queries_witness:
  "allocated blank 3 \<and> init blank (- 1) 1 (- 1) 1 = Inr seed \<and> area seed = Some (Inr 4)
     \<and> perimeter seed = Some (Inr 8) \<and> centroid seed = Some (Inr (0, 0))
     \<and> max_radius_squared seed = Inr 8"
proof -
  have al: "allocated blank 3"
    by (simp add: blank_def allocated_def)
  have i: "init blank (- 1) 1 (- 1) 1 = Inr seed"
    using al by (simp add: init_def blank_def seed_def)
  from seed_rectangle_queries [OF al] i al show ?thesis
    by auto
qed

text \<open>The queries that test \<^verbatim>\<open>p==0\<close> return zero on an empty cell.\<close>

lemma empty_cell_guarded_queries:
  assumes "p c = 0"
  shows "perimeter c = Some (Inr 0) \<and> area c = Some (Inr 0) \<and> centroid c = Some (Inr (0, 0))"
  using assms by (simp add: perimeter_def area_def centroid_def)

text \<open>
  C2. On a cell with \<^verbatim>\<open>p = 0\<close> the queries return zero: \<^verbatim>\<open>perimeter()\<close> and \<^verbatim>\<open>area()\<close>
  return 0 and \<^verbatim>\<open>centroid()\<close> returns \<^verbatim>\<open>(0, 0)\<close>, but \<^verbatim>\<open>max_radius_squared()\<close> has no
  test of \<^verbatim>\<open>p\<close> and returns the squared radius of whatever slot 0 holds: on the seed
  rectangle with \<^verbatim>\<open>p\<close> set to 0 it returns 8.
\<close>

theorem max_radius_squared_empty_cell:
  "p (seed\<lparr>p := 0\<rparr>) = 0
    \<and> max_radius_squared (seed\<lparr>p := 0\<rparr>) = Inr 8
    \<and> perimeter (seed\<lparr>p := 0\<rparr>) = Some (Inr 0)
    \<and> area (seed\<lparr>p := 0\<rparr>) = Some (Inr 0)
    \<and> centroid (seed\<lparr>p := 0\<rparr>) = Some (Inr (0, 0))"
  by (simp add: max_radius_squared_def max_radius_loop.simps perimeter_def area_def
      centroid_def seed_def allocated_def)

section \<open>Custom output\<close>

lemma format_loop_trailing:
  "nul \<notin> set fmt \<Longrightarrow> boundary fmt \<Longrightarrow>
     format_loop c i x y r (fmt @ [percent]) = format_loop c i x y r fmt"
proof (induction fmt rule: boundary.induct)
  case 1
  then show ?case by (simp add: percent_def nul_def then_emit_def)
next
  case (2 ch)
  then show ?case by (simp add: percent_def nul_def then_emit_def)
next
  case (3 ch d fmp)
  show ?case
  proof (cases "ch = percent")
    case True
    with 3 show ?thesis by (cases fmp) (simp_all add: percent_def nul_def then_emit_def)
  next
    case False
    with 3 show ?thesis by simp
  qed
qed

lemma format_loop_literal:
  "nul \<notin> set fmt \<Longrightarrow> percent \<notin> set fmt \<Longrightarrow>
     format_loop c i x y r fmt = Some (Inr (map Chr fmt))"
  by (induction c i x y r fmt rule: format_loop.induct) (auto simp: then_emit_def)

text \<open>
  C4 as stated: a format that ends with \<^verbatim>\<open>%\<close> makes \<^verbatim>\<open>output_custom\<close> emit a literal
  \<^verbatim>\<open>%\<close> for it. For the format \<^verbatim>\<open>"%"\<close> the routine writes the newline and nothing else.
\<close>

theorem trailing_percent_not_emitted:
  "output_custom seed ''%'' 0 0 0 0 = Some (Inr [Chr newline])"
  by (simp add: output_custom_def percent_def nul_def)

text \<open>
  C4, amended. A trailing \<^verbatim>\<open>%\<close> that the scan reads as the start of a control sequence is
  dropped: the output is that of the format without it. Literal characters are passed
  through: a format of literal characters followed by \<^verbatim>\<open>%\<close> gives these characters and
  the newline.
\<close>

theorem trailing_percent_discarded:
  assumes "nul \<notin> set fmt" and "boundary fmt"
  shows "output_custom c (fmt @ [percent]) i x y r = output_custom c fmt i x y r
    \<and> (percent \<notin> set fmt \<longrightarrow>
         output_custom c (fmt @ [percent]) i x y r = Some (Inr (map Chr fmt @ [Chr newline])))"
  using assms by (simp add: output_custom_def format_loop_trailing format_loop_literal)

theorem trailing_percent_discarded_witness:
  "nul \<notin> set ''a%w'' \<and> boundary ''a%w'' \<and>
   output_custom seed (''a%w'' @ [percent]) 0 0 0 0
     = Some (Inr [Chr CHR ''a'', Decimal 4, Chr newline])
   \<and> percent \<notin> set ''ab'' \<and> nul \<notin> set ''ab'' \<and> boundary ''ab''
   \<and> output_custom seed (''ab'' @ [percent]) 0 0 0 0
     = Some (Inr [Chr CHR ''a'', Chr CHR ''b'', Chr newline])"
  using trailing_percent_discarded [of "''a%w''" seed 0 0 0 0]
    trailing_percent_discarded [of "''ab''" seed 0 0 0 0]
  by (simp add: output_custom_def nul_def percent_def control_def then_emit_def seed_def)

section \<open>The cutting routine\<close>

subsection \<open>Rules for the loops\<close>

lemmas sweep_succ_pinduct =
  sweep_succ.raw_induct[where xa="(((((((((cfg,x),y),rsq),up),c),stack),up2),l),u2)"
    for cfg x y rsq up c stack up2 l u2, simplified, rotated 1, consumes 1]

lemmas ev = plane_def find_vertex_def find_succ.simps find_pred.simps sweep_succ.simps
  sweep_pred.simps splice_def cut_succ_def cut_pred_def grow_if_full_def
  add_memory_vertices_def add_memory_ds_def push_def mark_def scan.simps pos_def
  allocated_def Let_def seed_def cfg0_def

subsection \<open>A cut that removes the cell\<close>

lemma push_frame:
  "push cfg c stack v = Inr (c', stack') \<Longrightarrow>
     c' = c\<lparr>current_delete_size := current_delete_size c'\<rparr> \<and> stack' = v # stack"
  by (auto simp: push_def add_memory_ds_def Let_def split: if_splits sum.splits)

lemma sweep_succ_frame:
  "sweep_succ cfg x y rsq up c stack up2 l u2 = Some res \<Longrightarrow> res = Inr (Clipped c') \<Longrightarrow>
     c' = c\<lparr>current_delete_size := current_delete_size c'\<rparr>"
proof (induction arbitrary: c' rule: sweep_succ_pinduct)
  case (1 sw cfg x y rsq up c stack up2 l u2 res)
  show ?case
  proof (cases "tolerance cfg < u2")
    case False
    with 1 show ?thesis by simp
  next
    case True
    with 1(2) obtain c1 st1 where pu: "push cfg c stack up2 = Inr (c1, st1)"
      using "1.prems" by (auto split: sum.splits)
    from push_frame[OF pu]
    have c1: "c1 = c\<lparr>current_delete_size := current_delete_size c1\<rparr>" by simp
    show ?thesis
    proof (cases "ed c1 (2 * up2) = up")
      case True
      with 1(2) pu \<open>tolerance cfg < u2\<close> "1.prems" have "c' = c1"
        by (auto simp: Let_def split: if_splits)
      with c1 show ?thesis by simp
    next
      case False
      with 1(2) pu \<open>tolerance cfg < u2\<close> "1.prems"
      have "sw cfg x y rsq up c1 st1 (ed c1 (2 * up2)) u2
              (pos c1 x y rsq (ed c1 (2 * up2))) = Some res"
        by (auto simp: Let_def split: if_splits)
      from 1(1)[OF this "1.prems"]
      have "c' = c1\<lparr>current_delete_size := current_delete_size c'\<rparr>" .
      with c1 show ?thesis
        by (metis cell.update_convs(3) cell.surjective cell.select_convs)
    qed
  qed
qed

lemma splice_result_true: "map_sum id (Pair True) z \<noteq> Inr (False, c')"
  by (cases z) auto

lemma plane_false_example:
  "plane cfg0 seed 1 0 (- 3) = Some (Inr (False, seed\<lparr>current_delete_size := 4\<rparr>))"
  by (simp add: ev)

text \<open>
  C9. Whenever \<^verbatim>\<open>plane\<close> returns false, the vertex count, the coordinates and the adjacency
  are as they were before the call; of the cell only the capacity of the delete stack may
  have changed.
\<close>

theorem plane_false_frame:
  assumes "plane cfg c x y rsq = Some (Inr (False, c'))"
  shows "p c' = p c \<and> pts c' = pts c \<and> ed c' = ed c
    \<and> current_vertices c' = current_vertices c"
proof -
  from assms obtain up u c1 st up2 l u2 where
    sw: "sweep_succ cfg x y rsq up c [up] up2 l u2 = Some (Inr (Clipped c'))"
    by (auto simp: plane_def Let_def splice_result_true
        split: option.splits sum.splits found.splits if_splits sweep.splits)
  from sweep_succ_frame[OF sw refl]
  have "c' = c\<lparr>current_delete_size := current_delete_size c'\<rparr>" .
  then show ?thesis
    by (metis cell.select_convs cell.surjective cell.update_convs(3))
qed

theorem plane_false_frame_witness:
  "plane cfg0 seed 1 0 (- 3) = Some (Inr (False, seed\<lparr>current_delete_size := 4\<rparr>))
   \<and> p (seed\<lparr>current_delete_size := 4\<rparr>) = p seed
   \<and> pts (seed\<lparr>current_delete_size := 4\<rparr>) = pts seed
   \<and> ed (seed\<lparr>current_delete_size := 4\<rparr>) = ed seed"
  using plane_false_frame [OF plane_false_example] plane_false_example by simp

subsection \<open>Walking around a well-formed cell\<close>


lemma wf_succ_live: "well_formed c \<Longrightarrow> v \<in> live c \<Longrightarrow> succ_of c v \<in> live c"
  by (simp add: well_formed_def no_stale_def)

lemma wf_pred_live: "well_formed c \<Longrightarrow> v \<in> live c \<Longrightarrow> pred_of c v \<in> live c"
  by (simp add: well_formed_def no_stale_def)

lemma wf_succ_pred: "well_formed c \<Longrightarrow> v \<in> live c \<Longrightarrow> succ_of c (pred_of c v) = v"
  by (simp add: well_formed_def cyclic_adjacency_def)

lemma wf_pred_succ: "well_formed c \<Longrightarrow> v \<in> live c \<Longrightarrow> pred_of c (succ_of c v) = v"
  by (simp add: well_formed_def cyclic_adjacency_def)

lemma wf_zero_live: "well_formed c \<Longrightarrow> 0 \<in> live c"
  by (simp add: well_formed_def live_def)

lemma live_allocated: "well_formed c \<Longrightarrow> v \<in> live c \<Longrightarrow> allocated c v"
  by (simp add: well_formed_def live_def allocated_def)

lemma succ_pow_live: "well_formed c \<Longrightarrow> v \<in> live c \<Longrightarrow> (succ_of c ^^ k) v \<in> live c"
  by (induction k) (simp_all add: wf_succ_live)

lemma pred_pow_live: "well_formed c \<Longrightarrow> v \<in> live c \<Longrightarrow> (pred_of c ^^ k) v \<in> live c"
  by (induction k) (simp_all add: wf_pred_live)

lemma pred_pow_succ_pow:
  "well_formed c \<Longrightarrow> v \<in> live c \<Longrightarrow> (pred_of c ^^ k) ((succ_of c ^^ k) v) = v"
proof (induction k arbitrary: v)
  case 0
  then show ?case by simp
next
  case (Suc k)
  have "(pred_of c ^^ Suc k) ((succ_of c ^^ Suc k) v)
      = (pred_of c ^^ k) (pred_of c (succ_of c ((succ_of c ^^ k) v)))"
    by (simp add: funpow_swap1)
  also have "\<dots> = (pred_of c ^^ k) ((succ_of c ^^ k) v)"
    using Suc.prems by (simp add: wf_pred_succ succ_pow_live)
  finally show ?case using Suc by simp
qed

lemma pow_period: "(f ^^ n) a = a \<Longrightarrow> (f ^^ (m * n)) a = a"
  by (induction m) (simp_all add: funpow_add)

lemma succ_returns: 
  assumes "well_formed c"
  shows "\<exists>n>0. (succ_of c ^^ n) 0 = 0"
proof -
  have "pred_of c 0 \<in> live c"
    using assms by (simp add: wf_pred_live wf_zero_live)
  with assms obtain k where "(succ_of c ^^ k) 0 = pred_of c 0"
    unfolding well_formed_def single_cycle_def by blast
  then have "(succ_of c ^^ Suc k) 0 = 0"
    using assms by (simp add: wf_succ_pred wf_zero_live)
  then show ?thesis by blast
qed

lemma pred_returns:
  assumes "well_formed c"
  shows "\<exists>n>0. (pred_of c ^^ n) 0 = 0"
proof -
  from succ_returns[OF assms] obtain n where n: "0 < n" "(succ_of c ^^ n) 0 = 0" by blast
  from pred_pow_succ_pow[OF assms wf_zero_live[OF assms], of n] n
  show ?thesis by auto
qed

lemma find_succ_inside:
  assumes wf: "well_formed c"
    and ins: "\<forall>v\<in>live c. pos c x y rsq v < tolerance cfg"
  shows "up2 \<in> live c \<Longrightarrow> (succ_of c ^^ k) up2 = up3 \<Longrightarrow> 0 < k \<Longrightarrow>
    find_succ cfg c x y rsq up3 up2 (pos c x y rsq up2) = Some (Inr NotCut)"
proof (induction k arbitrary: up2)
  case 0
  then show ?case by simp
next
  case (Suc k)
  let ?n = "succ_of c up2"
  have nl: "?n \<in> live c" using wf Suc.prems(1) by (rule wf_succ_live)
  have al: "allocated c (ed c (2 * up2))"
    using live_allocated[OF wf nl] by (simp add: succ_of_def)
  have lt: "pos c x y rsq up2 < tolerance cfg" using ins Suc.prems(1) by blast
  show ?case
  proof (cases "?n = up3")
    case True
    then show ?thesis
      using al lt by (subst find_succ.simps) (simp add: succ_of_def)
  next
    case False
    have "(succ_of c ^^ k) ?n = up3" using Suc.prems(2) by (simp add: funpow_swap1)
    moreover from this False have "0 < k" by (cases k) auto
    ultimately have "find_succ cfg c x y rsq up3 ?n (pos c x y rsq ?n) = Some (Inr NotCut)"
      using Suc.IH nl by blast
    then show ?thesis
      using al lt False by (subst find_succ.simps) (simp add: succ_of_def)
  qed
qed

lemma find_pred_inside:
  assumes wf: "well_formed c"
    and ins: "\<forall>v\<in>live c. pos c x y rsq v < tolerance cfg"
  shows "up3 \<in> live c \<Longrightarrow> (pred_of c ^^ k) up3 = up2 \<Longrightarrow> 0 < k \<Longrightarrow>
    find_pred cfg c x y rsq up2 up3 (pos c x y rsq up3) = Some (Inr NotCut)"
proof (induction k arbitrary: up3)
  case 0
  then show ?case by simp
next
  case (Suc k)
  let ?n = "pred_of c up3"
  have nl: "?n \<in> live c" using wf Suc.prems(1) by (rule wf_pred_live)
  have al: "allocated c (ed c (2 * up3 + 1))"
    using live_allocated[OF wf nl] by (simp add: pred_of_def)
  have lt: "pos c x y rsq up3 < tolerance cfg" using ins Suc.prems(1) by blast
  show ?case
  proof (cases "?n = up2")
    case True
    then show ?thesis
      using al lt by (subst find_pred.simps) (auto simp add: pred_of_def)
  next
    case False
    have "(pred_of c ^^ k) ?n = up2" using Suc.prems(2) by (simp add: funpow_swap1)
    moreover from this False have "0 < k" by (cases k) auto
    ultimately have "find_pred cfg c x y rsq up2 ?n (pos c x y rsq ?n) = Some (Inr NotCut)"
      using Suc.IH nl by blast
    then show ?thesis
      using al lt False by (subst find_pred.simps) (auto simp add: pred_of_def)
  qed
qed

lemma succ_walk_to_pred:
  assumes wf: "well_formed c"
  shows "\<exists>k>0. (succ_of c ^^ k) (succ_of c 0) = pred_of c 0"
proof -
  from succ_returns[OF wf] obtain n where n: "0 < n" "(succ_of c ^^ n) 0 = 0" by blast
  from pow_period[OF n(2), of 3] have "(succ_of c ^^ (3 * n)) 0 = 0" .
  moreover from n(1) obtain k where k: "3 * n = Suc (Suc (Suc k))"
    by (cases n) auto
  ultimately have "succ_of c ((succ_of c ^^ Suc (Suc k)) 0) = 0" by simp
  then have "pred_of c (succ_of c ((succ_of c ^^ Suc (Suc k)) 0)) = pred_of c 0" by simp
  then have "(succ_of c ^^ Suc (Suc k)) 0 = pred_of c 0"
    using wf by (simp only: wf_pred_succ[OF wf succ_pow_live[OF wf wf_zero_live[OF wf]]])
  then have "(succ_of c ^^ Suc k) (succ_of c 0) = pred_of c 0"
    by (simp add: funpow_swap1)
  then show ?thesis by blast
qed

lemma succ_pow_pred_pow:
  "well_formed c \<Longrightarrow> v \<in> live c \<Longrightarrow> (succ_of c ^^ k) ((pred_of c ^^ k) v) = v"
proof (induction k arbitrary: v)
  case 0
  then show ?case by simp
next
  case (Suc k)
  have "(succ_of c ^^ Suc k) ((pred_of c ^^ Suc k) v)
      = (succ_of c ^^ k) (succ_of c (pred_of c ((pred_of c ^^ k) v)))"
    by (simp add: funpow_swap1)
  also have "\<dots> = (succ_of c ^^ k) ((pred_of c ^^ k) v)"
    using Suc.prems by (simp add: wf_succ_pred pred_pow_live)
  finally show ?case using Suc by simp
qed

lemma pred_walk_to_succ:
  assumes wf: "well_formed c"
  shows "\<exists>k>0. (pred_of c ^^ k) (pred_of c 0) = succ_of c 0"
proof -
  from pred_returns[OF wf] obtain n where n: "0 < n" "(pred_of c ^^ n) 0 = 0" by blast
  from pow_period[OF n(2), of 3] have "(pred_of c ^^ (3 * n)) 0 = 0" .
  moreover from n(1) obtain k where k: "3 * n = Suc (Suc (Suc k))"
    by (cases n) auto
  ultimately have "pred_of c ((pred_of c ^^ Suc (Suc k)) 0) = 0" by simp
  then have "succ_of c (pred_of c ((pred_of c ^^ Suc (Suc k)) 0)) = succ_of c 0" by simp
  then have "(pred_of c ^^ Suc (Suc k)) 0 = succ_of c 0"
    using wf by (simp only: wf_succ_pred[OF wf pred_pow_live[OF wf wf_zero_live[OF wf]]])
  then have "(pred_of c ^^ Suc k) (pred_of c 0) = succ_of c 0"
    by (simp add: funpow_swap1)
  then show ?thesis by blast
qed

text \<open>
  C5, amended. On a well-formed cell, when \<^verbatim>\<open>pos(v) < tolerance\<close> for every vertex \<open>v\<close> in
  use, \<^verbatim>\<open>plane\<close> returns true and leaves the cell as it is: the vertex count, the
  coordinates and the adjacency are unchanged.
\<close>

theorem plane_not_cut:
  assumes wf: "well_formed c"
    and ins: "\<forall>v\<in>live c. pos c x y rsq v < tolerance cfg"
  shows "plane cfg c x y rsq = Some (Inr (True, c))"
proof -
  have z: "0 \<in> live c" using wf by (rule wf_zero_live)
  have s: "succ_of c 0 \<in> live c" and r: "pred_of c 0 \<in> live c"
    using wf z by (simp_all add: wf_succ_live wf_pred_live)
  have al: "allocated c 0" "allocated c (ed c 0)" "allocated c (ed c 1)"
    using live_allocated[OF wf z] live_allocated[OF wf s] live_allocated[OF wf r]
    by (simp_all add: succ_of_def pred_of_def)
  have u: "pos c x y rsq 0 < tolerance cfg" using ins z by blast
  from succ_walk_to_pred[OF wf] obtain k where
    k: "0 < k" "(succ_of c ^^ k) (succ_of c 0) = pred_of c 0" by blast
  from pred_walk_to_succ[OF wf] obtain j where
    j: "0 < j" "(pred_of c ^^ j) (pred_of c 0) = succ_of c 0" by blast
  have fs: "find_succ cfg c x y rsq (ed c 1) (ed c 0) (pos c x y rsq (ed c 0)) = Some (Inr NotCut)"
    using find_succ_inside[OF wf ins s k(2) k(1)] by (simp add: succ_of_def pred_of_def)
  have fp: "find_pred cfg c x y rsq (ed c 0) (ed c 1) (pos c x y rsq (ed c 1)) = Some (Inr NotCut)"
    using find_pred_inside[OF wf ins r j(2) j(1)] by (simp add: succ_of_def pred_of_def)
  have "find_vertex cfg c x y rsq = Some (Inr NotCut)"
    using al u fs fp by (simp add: find_vertex_def Let_def)
  then show ?thesis by (simp add: plane_def)
qed

subsection \<open>The first sweep on a well-formed cell\<close>


lemma no_fixed_point:
  assumes wf: "well_formed c" and big: "1 < p c" and v: "v \<in> live c"
  shows "succ_of c v \<noteq> v"
proof
  assume fx: "succ_of c v = v"
  have z: "0 \<in> live c" using wf by (rule wf_zero_live)
  have reach0: "(succ_of c ^^ k) 0 = v \<Longrightarrow> v = 0" for k
  proof (induction k)
    case 0
    then show ?case by simp
  next
    case (Suc k)
    then have "succ_of c ((succ_of c ^^ k) 0) = succ_of c v" using fx by simp
    then have "pred_of c (succ_of c ((succ_of c ^^ k) 0)) = pred_of c (succ_of c v)" by simp
    then have "(succ_of c ^^ k) 0 = v"
      using wf_pred_succ[OF wf succ_pow_live[OF wf z]] wf_pred_succ[OF wf v] by simp
    then show ?case by (rule Suc.IH)
  qed
  from wf v obtain k where "(succ_of c ^^ k) 0 = v"
    unfolding well_formed_def single_cycle_def by blast
  then have v0: "v = 0" by (rule reach0)
  have all0: "(succ_of c ^^ k) 0 = 0" for k
    using fx v0 by (induction k) simp_all
  have "1 \<in> live c" using big by (simp add: live_def)
  with wf obtain k where "(succ_of c ^^ k) 0 = 1"
    unfolding well_formed_def single_cycle_def by blast
  with all0 show False by simp
qed

lemma succ_arc_init:
  assumes wf: "well_formed c" and big: "1 < p c" and up: "up \<in> live c"
  shows "succ_arc c up [up] (succ_of c up)"
  using no_fixed_point[OF wf big up] wf_succ_live[OF wf up] wf_pred_succ[OF wf up] up
  by (simp add: succ_arc_def)

lemma succ_arc_step:
  assumes wf: "well_formed c" and big: "1 < p c"
    and arc: "succ_arc c up stack up2" and ne: "succ_of c up2 \<noteq> up"
  shows "succ_arc c up (up2 # stack) (succ_of c up2)"
proof -
  have up2: "up2 \<in> live c" using arc by (simp add: succ_arc_def)
  have n: "succ_of c up2 \<in> live c" using wf up2 by (rule wf_succ_live)
  have nf: "succ_of c up2 \<noteq> up2" using wf big up2 by (rule no_fixed_point)
  have "succ_of c up2 \<notin> set stack"
  proof
    assume a: "succ_of c up2 \<in> set stack"
    with arc ne have "pred_of c (succ_of c up2) \<in> set stack"
      by (auto simp: succ_arc_def)
    then have "up2 \<in> set stack" using wf_pred_succ[OF wf up2] by simp
    with arc show False by (simp add: succ_arc_def)
  qed
  then show ?thesis
    using arc ne n nf wf_pred_succ[OF wf up2]
    by (auto simp: succ_arc_def)
qed

lemma succ_arc_length:
  assumes "succ_arc c up stack up2"
  shows "int (length stack) < p c"
proof -
  have "set stack \<subseteq> live c - {up2}" "distinct stack" "up2 \<in> live c"
    using assms by (auto simp: succ_arc_def)
  then have "card (set stack) \<le> card (live c - {up2})"
    by (intro card_mono) (auto simp: live_def)
  moreover have "card (live c - {up2}) = card (live c) - 1" 
    using \<open>up2 \<in> live c\<close> by (simp add: live_def)
  moreover have "card (live c) = nat (p c)" by (simp add: live_def)
  moreover have "0 < p c" using \<open>up2 \<in> live c\<close> by (auto simp: live_def)
  ultimately show ?thesis
    using \<open>distinct stack\<close> by (simp add: distinct_card)
qed

lemma cds_fields [simp]:
  "succ_of (c\<lparr>current_delete_size := n\<rparr>) = succ_of c"
  "pred_of (c\<lparr>current_delete_size := n\<rparr>) = pred_of c"
  "live (c\<lparr>current_delete_size := n\<rparr>) = live c"
  "pos (c\<lparr>current_delete_size := n\<rparr>) = pos c"
  "allocated (c\<lparr>current_delete_size := n\<rparr>) = allocated c"
  by (auto simp: succ_of_def pred_of_def live_def pos_def allocated_def fun_eq_iff)

lemma push_ok:
  assumes "int (length stack) \<le> n" and "0 < n"
    and "2 * int (length stack) \<le> max_delete_size cfg"
  shows "\<exists>n'. push cfg (c\<lparr>current_delete_size := n\<rparr>) stack v
            = Inr (c\<lparr>current_delete_size := n'\<rparr>, v # stack)
          \<and> int (length (v # stack)) \<le> n' \<and> 0 < n'"
proof (cases "int (length stack) = n")
  case True
  with assms show ?thesis
    by (intro exI[of _ "2 * n"]) (simp add: push_def add_memory_ds_def Let_def)
next
  case False
  with assms show ?thesis
    by (intro exI[of _ n]) (simp add: push_def add_memory_ds_def Let_def)
qed

lemma sweep_succ_outside:
  assumes wf: "well_formed c" and big: "1 < p c"
    and out: "\<forall>v\<in>live c. tolerance cfg < pos c x y rsq v"
    and cap: "2 * p c \<le> max_delete_size cfg"
  shows "succ_arc c up stack up2 \<Longrightarrow> (succ_of c ^^ k) up2 = up \<Longrightarrow> 0 < k \<Longrightarrow>
     int (length stack) \<le> n \<Longrightarrow> 0 < n \<Longrightarrow>
     \<exists>n'. sweep_succ cfg x y rsq up (c\<lparr>current_delete_size := n\<rparr>) stack up2 l
            (pos c x y rsq up2) = Some (Inr (Clipped (c\<lparr>current_delete_size := n'\<rparr>)))"
proof (induction k arbitrary: stack up2 n l)
  case 0
  then show ?case by simp
next
  case (Suc k)
  have up2: "up2 \<in> live c" using Suc.prems(1) by (simp add: succ_arc_def)
  let ?s = "succ_of c up2"
  have sl: "?s \<in> live c" using wf up2 by (rule wf_succ_live)
  have al: "allocated c (ed c (2 * up2))"
    using live_allocated[OF wf sl] by (simp add: succ_of_def)
  have gt: "tolerance cfg < pos c x y rsq up2" using out up2 by blast
  have "2 * int (length stack) \<le> max_delete_size cfg"
    using succ_arc_length[OF Suc.prems(1)] cap by simp
  from push_ok[OF Suc.prems(4,5) this, of c up2] obtain n' where
    pu: "push cfg (c\<lparr>current_delete_size := n\<rparr>) stack up2
            = Inr (c\<lparr>current_delete_size := n'\<rparr>, up2 # stack)"
    and len: "int (length (up2 # stack)) \<le> n'" "0 < n'" by blast
  show ?case
  proof (cases "?s = up")
    case True
    then show ?thesis
      using gt pu al by (subst sweep_succ.simps) (auto simp: succ_of_def)
  next
    case False
    have arc: "succ_arc c up (up2 # stack) ?s"
      using wf big Suc.prems(1) False by (rule succ_arc_step)
    have "(succ_of c ^^ k) ?s = up" using Suc.prems(2) by (simp add: funpow_swap1)
    moreover from this False have "0 < k" by (cases k) auto
    ultimately obtain n'' where
      "sweep_succ cfg x y rsq up (c\<lparr>current_delete_size := n'\<rparr>) (up2 # stack) ?s
         (pos c x y rsq up2) (pos c x y rsq ?s)
       = Some (Inr (Clipped (c\<lparr>current_delete_size := n''\<rparr>)))"
      using Suc.IH[OF arc _ _ len] by blast
    then show ?thesis
      using gt pu al False by (subst sweep_succ.simps) (auto simp: succ_of_def)
  qed
qed

subsection \<open>Cuts that touch nothing, and cuts that remove everything\<close>


lemma seed_live: "live seed = {0, 1, 2, 3}"
  by (auto simp: live_def seed_def)

lemma seed_well_formed: "well_formed seed"
proof -
  have "(succ_of seed ^^ 0) 0 = 0" "(succ_of seed ^^ 1) 0 = 1"
    "(succ_of seed ^^ 2) 0 = 2" "(succ_of seed ^^ 3) 0 = 3"
    by (simp_all add: eval_nat_numeral succ_of_def seed_def)
  then have "single_cycle seed"
    unfolding single_cycle_def seed_live by blast
  moreover have "cyclic_adjacency seed" "no_stale seed"
    unfolding cyclic_adjacency_def no_stale_def seed_live
    by (simp_all add: succ_of_def pred_of_def seed_def)
  moreover have "0 < p seed" "p seed \<le> current_vertices seed"
    by (simp_all add: seed_def)
  ultimately show ?thesis by (simp add: well_formed_def)
qed

lemma succ_walk_home:
  assumes wf: "well_formed c"
  shows "\<exists>k>0. (succ_of c ^^ k) (succ_of c 0) = 0"
proof -
  from succ_returns[OF wf] obtain n where n: "0 < n" "(succ_of c ^^ n) 0 = 0" by blast
  from pow_period[OF n(2), of 2] have "(succ_of c ^^ (2 * n)) 0 = 0" .
  moreover from n(1) obtain k where k: "2 * n = Suc (Suc k)"
    by (cases n) auto
  ultimately have "(succ_of c ^^ Suc k) (succ_of c 0) = 0"
    by (simp add: funpow_swap1)
  then show ?thesis by blast
qed

text \<open>
  C1, amended. On a well-formed cell, when \<^verbatim>\<open>pos(v) > tolerance\<close> for every vertex \<open>v\<close> in
  use and the delete stack may grow to hold them (twice the vertex count is within
  \<^verbatim>\<open>max_delete_size\<close>), \<^verbatim>\<open>plane\<close> returns false and leaves the vertex count, the
  coordinates and the adjacency as they were: \<^verbatim>\<open>p\<close> is not set to 0.
\<close>

theorem plane_total_clip:
  assumes wf: "well_formed c"
    and out: "\<forall>v\<in>live c. tolerance cfg < pos c x y rsq v"
    and cds: "0 < current_delete_size c"
    and cap: "2 * p c \<le> max_delete_size cfg"
  shows "\<exists>n. plane cfg c x y rsq = Some (Inr (False, c\<lparr>current_delete_size := n\<rparr>))"
proof -
  have z: "0 \<in> live c" using wf by (rule wf_zero_live)
  have s: "succ_of c 0 \<in> live c" using wf z by (rule wf_succ_live)
  have al: "allocated c 0" "allocated c (ed c 0)"
    using live_allocated[OF wf z] live_allocated[OF wf s] by (simp_all add: succ_of_def)
  have u: "\<not> pos c x y rsq 0 < tolerance cfg" using out z by fastforce
  have fv: "find_vertex cfg c x y rsq = Some (Inr (Found 0 (pos c x y rsq 0)))"
    using al u by (simp add: find_vertex_def Let_def)
  have cc: "c\<lparr>current_delete_size := current_delete_size c\<rparr> = c" by simp
  have "\<exists>n. sweep_succ cfg x y rsq 0 c [0] (succ_of c 0) (pos c x y rsq 0)
           (pos c x y rsq (succ_of c 0)) = Some (Inr (Clipped (c\<lparr>current_delete_size := n\<rparr>)))"
  proof (cases "1 < p c")
    case True
    from succ_walk_home[OF wf] obtain k where
      k: "0 < k" "(succ_of c ^^ k) (succ_of c 0) = 0" by blast
    have "int (length [0::int]) \<le> current_delete_size c" using cds by simp
    from sweep_succ_outside[OF wf True out cap succ_arc_init[OF wf True z] k(2) k(1) this cds]
    show ?thesis by (simp only: cc)
  next
    case False
    then have "live c = {0}" using wf by (auto simp: live_def well_formed_def)
    with s have s0: "succ_of c 0 = 0" by simp
    have gt: "tolerance cfg < pos c x y rsq 0" using out z by blast
    have "2 * int (length [0::int]) \<le> max_delete_size cfg"
      using cap wf by (simp add: well_formed_def)
    from push_ok[OF _ cds this, of c 0] cds obtain n' where
      "push cfg c [0] 0 = Inr (c\<lparr>current_delete_size := n'\<rparr>, [0, 0])"
      by (auto simp: cc)
    then show ?thesis
      using s0 gt al by (subst sweep_succ.simps) (auto simp: succ_of_def)
  qed
  then obtain n where "sweep_succ cfg x y rsq 0 c [0] (succ_of c 0) (pos c x y rsq 0)
           (pos c x y rsq (succ_of c 0)) = Some (Inr (Clipped (c\<lparr>current_delete_size := n\<rparr>)))"
    by blast
  then have "plane cfg c x y rsq = Some (Inr (False, c\<lparr>current_delete_size := n\<rparr>))"
    using fv cds al by (simp add: plane_def Let_def succ_of_def)
  then show ?thesis by blast
qed

lemma seed_all_outside: "\<forall>v\<in>live seed. tolerance cfg0 < pos seed 1 0 (- 3) v"
  unfolding seed_live by (simp add: pos_def seed_def cfg0_def)

theorem plane_total_clip_witness:
  "well_formed seed \<and> 0 < current_delete_size seed \<and> 2 * p seed \<le> max_delete_size cfg0
   \<and> plane cfg0 seed 1 0 (- 3) = Some (Inr (False, seed\<lparr>current_delete_size := 4\<rparr>))
   \<and> p (seed\<lparr>current_delete_size := 4\<rparr>) = 4"
proof -
  have a: "0 < current_delete_size seed" "2 * p seed \<le> max_delete_size cfg0"
    by (simp_all add: seed_def cfg0_def)
  from plane_total_clip[OF seed_well_formed seed_all_outside a] plane_false_example
    seed_well_formed a
  show ?thesis by (simp add: seed_def)
qed

text \<open>
  C1 as stated: when the cut removes the whole cell, \<^verbatim>\<open>plane\<close> returns false and the
  vertex count is 0 afterwards. Every corner of the seed rectangle is outside the plane
  \<^verbatim>\<open>(1, 0, -3)\<close>; the call returns false and the count is still 4.
\<close>

theorem total_clip_keeps_count:
  "tolerance cfg0 < pos seed 1 0 (- 3) 0 \<and> tolerance cfg0 < pos seed 1 0 (- 3) 1
   \<and> tolerance cfg0 < pos seed 1 0 (- 3) 2 \<and> tolerance cfg0 < pos seed 1 0 (- 3) 3
   \<and> live seed = {0, 1, 2, 3}
   \<and> flag_and_count (plane cfg0 seed 1 0 (- 3)) = Some (False, 4)"
  using plane_false_example seed_live
  by (simp add: flag_and_count_def pos_def seed_def cfg0_def)

lemma seed_all_inside: "\<forall>v\<in>live seed. pos seed 1 0 3 v < tolerance cfg0"
  unfolding seed_live by (simp add: pos_def seed_def cfg0_def)

theorem plane_not_cut_witness:
  "well_formed seed \<and> plane cfg0 seed 1 0 3 = Some (Inr (True, seed))"
  using plane_not_cut[OF seed_well_formed seed_all_inside] seed_well_formed by simp

text \<open>
  C5 as stated: when \<^verbatim>\<open>pos(v) \<le> tolerance\<close> for every vertex in use, \<^verbatim>\<open>plane\<close> returns true
  and changes nothing. With \<open>t\<close> the tolerance, the plane \<^verbatim>\<open>(-t/4, -t/4, 0)\<close> gives the
  corners of the seed rectangle the values \<open>t\<close>, 0, \<open>-t\<close> and 0 (each product and sum is
  exact in binary floating point as well). The first test, \<^verbatim>\<open>u<tolerance\<close>, fails for
  vertex 0, so it is deleted and a new vertex takes its slot: the call returns true, and
  the coordinates stored for vertex 0 have changed from \<^verbatim>\<open>(-2,-2)\<close> to \<^verbatim>\<open>(-2,2)\<close>.
\<close>

theorem on_tolerance_vertex_is_cut:
  "pos seed (- tolerance cfg0 / 4) (- tolerance cfg0 / 4) 0 0 \<le> tolerance cfg0
   \<and> pos seed (- tolerance cfg0 / 4) (- tolerance cfg0 / 4) 0 1 \<le> tolerance cfg0
   \<and> pos seed (- tolerance cfg0 / 4) (- tolerance cfg0 / 4) 0 2 \<le> tolerance cfg0
   \<and> pos seed (- tolerance cfg0 / 4) (- tolerance cfg0 / 4) 0 3 \<le> tolerance cfg0
   \<and> live seed = {0, 1, 2, 3}
   \<and> flag_and_count (plane cfg0 seed (- tolerance cfg0 / 4) (- tolerance cfg0 / 4) 0)
       = Some (True, 4)
   \<and> stored 0 seed = Some (Inr (- 2, - 2))
   \<and> after_plane (plane cfg0 seed (- tolerance cfg0 / 4) (- tolerance cfg0 / 4) 0) (stored 0)
       = Some (Inr (- 2, 2))"
proof -
  have "flag_and_count (plane cfg0 seed (- tolerance cfg0 / 4) (- tolerance cfg0 / 4) 0)
       = Some (True, 4)"
    and "after_plane (plane cfg0 seed (- tolerance cfg0 / 4) (- tolerance cfg0 / 4) 0) (stored 0)
       = Some (Inr (- 2, 2))"
    by (simp_all add: flag_and_count_def after_plane_def stored_def ev)
  then show ?thesis
    using seed_live by (simp add: pos_def seed_def cfg0_def stored_def)
qed

subsection \<open>Cutting and joining a closed adjacency\<close>

lemma closed_on_cong:
  assumes "\<forall>v\<in>A. s' v = s v \<and> r' v = r v" and "closed_on s r A"
  shows "closed_on s' r' A"
  using assms unfolding closed_on_def by simp

lemma closed_on_join_one:
  assumes cl: "closed_on s r L" and sub: "S \<subseteq> L" and up2: "up2 \<in> S" and up3: "up3 \<in> S"
    and q1: "q1 \<notin> L"
    and fw: "\<forall>v\<in>S. v \<noteq> up3 \<longrightarrow> s v \<in> S"
    and bw: "\<forall>v\<in>S. v \<noteq> up2 \<longrightarrow> r v \<in> S"
    and e2: "r up2 \<notin> S" and e3: "s up3 \<notin> S"
  shows "closed_on (s(up3 := q1, q1 := up2)) (r(up2 := q1, q1 := up3)) (insert q1 S)"
  unfolding closed_on_def
proof
  fix v assume v: "v \<in> insert q1 S"
  let ?s = "s(up3 := q1, q1 := up2)" and ?r = "r(up2 := q1, q1 := up3)"
  have n2: "q1 \<noteq> up2" and n3: "q1 \<noteq> up3" and nS: "q1 \<notin> S" using q1 sub up2 up3 by auto
  show "?s v \<in> insert q1 S \<and> ?r v \<in> insert q1 S \<and> ?r (?s v) = v \<and> ?s (?r v) = v \<and> ?s v \<noteq> v"
  proof (cases "v = q1")
    case True
    then show ?thesis using n2 n3 up2 up3 by simp
  next
    case False
    with v have vS: "v \<in> S" by simp
    then have vL: "v \<in> L" using sub by blast
    have c: "s v \<in> L" "r v \<in> L" "r (s v) = v" "s (r v) = v" "s v \<noteq> v"
      using cl vL by (simp_all add: closed_on_def)
    have a: "?s v \<in> insert q1 S" using fw vS False by auto
    have b: "?r v \<in> insert q1 S" using bw vS False by auto
    have d: "?r (?s v) = v"
    proof (cases "v = up3")
      case True then show ?thesis using n2 n3 by simp
    next
      case F: False
      then have "s v \<in> S" using fw vS by blast
      then have "s v \<noteq> up2" using c(3) e2 vS by auto
      moreover have "s v \<noteq> q1" using c(1) q1 by auto
      ultimately show ?thesis using F False c(3) by simp
    qed
    have e: "?s (?r v) = v"
    proof (cases "v = up2")
      case True then show ?thesis using n2 n3 by simp
    next
      case F: False
      then have "r v \<in> S" using bw vS by blast
      then have "r v \<noteq> up3" using c(4) e3 vS by auto
      moreover have "r v \<noteq> q1" using c(2) q1 by auto
      ultimately show ?thesis using F False c(4) by simp
    qed
    have f: "?s v \<noteq> v" using c(5) False n3 by auto
    from a b d e f show ?thesis by blast
  qed
qed

lemma closed_on_join_two:
  assumes cl: "closed_on s r L" and sub: "S \<subseteq> L" and up2: "up2 \<in> S" and up3: "up3 \<in> S"
    and q0: "q0 \<notin> L" and q1: "q1 \<notin> L" and ne: "q0 \<noteq> q1"
    and fw: "\<forall>v\<in>S. v \<noteq> up3 \<longrightarrow> s v \<in> S"
    and bw: "\<forall>v\<in>S. v \<noteq> up2 \<longrightarrow> r v \<in> S"
    and e2: "r up2 \<notin> S" and e3: "s up3 \<notin> S"
  shows "closed_on (s(up3 := q1, q1 := q0, q0 := up2)) (r(up2 := q0, q0 := q1, q1 := up3))
           (insert q0 (insert q1 S))"
  unfolding closed_on_def
proof
  fix v assume v: "v \<in> insert q0 (insert q1 S)"
  let ?s = "s(up3 := q1, q1 := q0, q0 := up2)" and ?r = "r(up2 := q0, q0 := q1, q1 := up3)"
  let ?A = "insert q0 (insert q1 S)"
  have n: "q1 \<noteq> up2" "q1 \<noteq> up3" "q1 \<notin> S" "q0 \<noteq> up2" "q0 \<noteq> up3" "q0 \<notin> S"
    using q0 q1 sub up2 up3 by auto
  show "?s v \<in> ?A \<and> ?r v \<in> ?A \<and> ?r (?s v) = v \<and> ?s (?r v) = v \<and> ?s v \<noteq> v"
  proof (cases "v = q1 \<or> v = q0")
    case True
    then show ?thesis
    proof
      assume "v = q1"
      then show ?thesis using n ne up2 up3 by simp
    next
      assume "v = q0"
      then show ?thesis using n ne up2 up3 by simp
    qed
  next
    case False
    with v have vS: "v \<in> S" by simp
    then have vL: "v \<in> L" using sub by blast
    have c: "s v \<in> L" "r v \<in> L" "r (s v) = v" "s (r v) = v" "s v \<noteq> v"
      using cl vL by (simp_all add: closed_on_def)
    have a: "?s v \<in> ?A"
    proof (cases "v = up3")
      case True then show ?thesis using n ne by simp
    next
      case F: False
      then have "s v \<in> S" using fw vS by blast
      then show ?thesis using F False by simp
    qed
    have b: "?r v \<in> ?A"
    proof (cases "v = up2")
      case True then show ?thesis using n ne by simp
    next
      case F: False
      then have "r v \<in> S" using bw vS by blast
      then show ?thesis using F False by simp
    qed
    have d: "?r (?s v) = v"
    proof (cases "v = up3")
      case True then show ?thesis using n ne by simp
    next
      case F: False
      then have "s v \<in> S" using fw vS by blast
      then have "s v \<noteq> up2" using c(3) e2 vS by auto
      moreover have "s v \<noteq> q1" "s v \<noteq> q0" using c(1) q1 q0 by auto
      ultimately show ?thesis using F False c(3) by simp
    qed
    have e: "?s (?r v) = v"
    proof (cases "v = up2")
      case True then show ?thesis using n ne by simp
    next
      case F: False
      then have "r v \<in> S" using bw vS by blast
      then have "r v \<noteq> up3" using c(4) e3 vS by auto
      moreover have "r v \<noteq> q1" "r v \<noteq> q0" using c(2) q1 q0 by auto
      ultimately show ?thesis using F False c(4) by simp
    qed
    have f: "?s v \<noteq> v" using c(5) False n by simp
    from a b d e f show ?thesis by blast
  qed
qed

lemma closed_on_move:
  assumes cl: "closed_on s r A" and q: "q \<in> A" and up: "up \<notin> A"
  shows "closed_on (s(r q := up, up := s q)) (r(s q := up, up := r q)) (insert up (A - {q}))"
  unfolding closed_on_def
proof
  fix v assume v: "v \<in> insert up (A - {q})"
  let ?s = "s(r q := up, up := s q)" and ?r = "r(s q := up, up := r q)"
  let ?B = "insert up (A - {q})"
  have cq: "s q \<in> A" "r q \<in> A" "r (s q) = q" "s (r q) = q" "s q \<noteq> q"
    using cl q by (simp_all add: closed_on_def)
  have rq: "r q \<noteq> q" using cq by metis
  have nu: "s q \<noteq> up" "r q \<noteq> up" using cq up by auto
  show "?s v \<in> ?B \<and> ?r v \<in> ?B \<and> ?r (?s v) = v \<and> ?s (?r v) = v \<and> ?s v \<noteq> v"
  proof (cases "v = up")
    case True
    then show ?thesis using cq rq nu by simp
  next
    case False
    with v have vA: "v \<in> A" "v \<noteq> q" by auto
    have c: "s v \<in> A" "r v \<in> A" "r (s v) = v" "s (r v) = v" "s v \<noteq> v"
      using cl vA by (simp_all add: closed_on_def)
    have sq: "s v = q \<longleftrightarrow> v = r q" using c cq by metis
    have rq': "r v = q \<longleftrightarrow> v = s q" using c cq by metis
    have su: "s v \<noteq> up" "r v \<noteq> up" using c up by auto
    have ss: "s v = s q \<longleftrightarrow> v = q" using c cq by metis
    have rr: "r v = r q \<longleftrightarrow> v = q" using c cq by metis
    show ?thesis
      using False vA c sq rq' su ss rr nu by auto
  qed
qed

lemma no_fixed_point_pred:
  assumes wf: "well_formed c" and big: "1 < p c" and v: "v \<in> live c"
  shows "pred_of c v \<noteq> v"
proof
  assume "pred_of c v = v"
  then have "succ_of c v = succ_of c (pred_of c v)" by simp
  then have "succ_of c v = v" using wf_succ_pred[OF wf v] by simp
  with no_fixed_point[OF wf big v] show False by simp
qed

lemma wf_closed_on:
  assumes wf: "well_formed c" and big: "1 < p c"
  shows "closed_on (succ_of c) (pred_of c) (live c)"
  unfolding closed_on_def
  using wf_succ_live[OF wf] wf_pred_live[OF wf] wf_pred_succ[OF wf] wf_succ_pred[OF wf]
    no_fixed_point[OF wf big] by blast

subsection \<open>Keeping a single cycle\<close>

text \<open>The two joins of \<^verbatim>\<open>plane\<close> and the move of the compaction keep the vertices that
  are left in one cycle.\<close>

lemma closed_on_pow:
  assumes "closed_on s r A" and "x \<in> A"
  shows "(s ^^ k) x \<in> A"
  using assms by (induction k) (simp_all add: closed_on_def)

lemma pow_agree:
  assumes eq: "\<forall>v\<in>A. s' v = s v" and cl: "closed_on s r A" and x: "x \<in> A"
  shows "(s' ^^ k) x = (s ^^ k) x"
proof (induction k)
  case 0
  show ?case by simp
next
  case (Suc k)
  have "(s ^^ k) x \<in> A" using cl x by (rule closed_on_pow)
  with eq Suc show ?case by simp
qed

lemma transitive_on_cong:
  assumes eq: "\<forall>v\<in>A. s' v = s v" and cl: "closed_on s r A" and tr: "transitive_on s A"
  shows "transitive_on s' A"
  unfolding transitive_on_def
proof (intro ballI)
  fix x v assume x: "x \<in> A" and v: "v \<in> A"
  with tr obtain k where "(s ^^ k) x = v" unfolding transitive_on_def by blast
  with pow_agree[OF eq cl x, of k] show "\<exists>k. (s' ^^ k) x = v" by auto
qed

lemma transitive_from_base:
  assumes cl: "closed_on s r A" and b: "b \<in> A" and reach: "\<forall>v\<in>A. \<exists>k. (s ^^ k) b = v"
  shows "transitive_on s A"
  unfolding transitive_on_def
proof (intro ballI)
  fix x v assume x: "x \<in> A" and v: "v \<in> A"
  from reach x obtain m where m: "(s ^^ m) b = x" by blast
  from reach v obtain i where i: "(s ^^ i) b = v" by blast
  have "r b \<in> A" using cl b by (simp add: closed_on_def)
  with reach obtain k where "(s ^^ k) b = r b" by blast
  then have n: "(s ^^ Suc k) b = b" using cl b by (simp add: closed_on_def)
  from pow_period[OF n, of m] have "(s ^^ (m * Suc k)) b = b" .
  then have "(s ^^ (m * k + m)) b = b" by (simp add: add.commute)
  then have "(s ^^ (m * k)) x = b" using m by (simp only: funpow_add o_apply)
  then have "(s ^^ (i + m * k)) x = v" using i by (simp only: funpow_add o_apply)
  then show "\<exists>k. (s ^^ k) x = v" by blast
qed

lemma wf_cycle_on:
  assumes wf: "well_formed c" and big: "1 < p c"
  shows "cycle_on (succ_of c) (pred_of c) (live c)"
proof -
  have cl: "closed_on (succ_of c) (pred_of c) (live c)" using wf big by (rule wf_closed_on)
  have "\<forall>v\<in>live c. \<exists>k. (succ_of c ^^ k) 0 = v"
    using wf by (simp add: well_formed_def single_cycle_def)
  from transitive_from_base[OF cl wf_zero_live[OF wf] this] cl
  show ?thesis by (simp add: cycle_on_def)
qed

lemma reach_survivors:
  assumes cl: "closed_on s r L" and sub: "S \<subseteq> L" and up2: "up2 \<in> S"
    and bw: "\<forall>v\<in>S. v \<noteq> up2 \<longrightarrow> r v \<in> S" and e3: "s up3 \<notin> S"
    and same: "\<forall>v\<in>S. v \<noteq> up3 \<longrightarrow> s' v = s v"
  shows "(s ^^ k) up2 \<in> S \<Longrightarrow> \<exists>j. (s' ^^ j) up2 = (s ^^ k) up2"
proof (induction k)
  case 0
  have "(s' ^^ 0) up2 = (s ^^ 0) up2" by simp
  then show ?case by blast
next
  case (Suc k)
  let ?w = "(s ^^ k) up2" and ?v = "(s ^^ Suc k) up2"
  have wL: "?w \<in> L" using cl sub up2 by (intro closed_on_pow[OF cl]) auto
  have v: "?v = s ?w" by simp
  show ?case
  proof (cases "?v = up2")
    case True
    have "(s' ^^ 0) up2 = ?v" using True by simp
    then show ?thesis by blast
  next
    case False
    have "r ?v \<in> S" using bw Suc.prems False by blast
    moreover have "r ?v = ?w" using cl wL by (simp add: closed_on_def)
    ultimately have wS: "?w \<in> S" by simp
    have "?w \<noteq> up3" using e3 Suc.prems v by auto
    with same wS have sw: "s' ?w = s ?w" by blast
    from Suc.IH[OF wS] obtain j where "(s' ^^ j) up2 = ?w" by blast
    then have "(s' ^^ Suc j) up2 = ?v" using sw by simp
    then show ?thesis by blast
  qed
qed

lemma cycle_on_join_one:
  assumes cy: "cycle_on s r L" and sub: "S \<subseteq> L" and up2: "up2 \<in> S" and up3: "up3 \<in> S"
    and q1: "q1 \<notin> L"
    and fw: "\<forall>v\<in>S. v \<noteq> up3 \<longrightarrow> s v \<in> S"
    and bw: "\<forall>v\<in>S. v \<noteq> up2 \<longrightarrow> r v \<in> S"
    and e2: "r up2 \<notin> S" and e3: "s up3 \<notin> S"
  shows "cycle_on (s(up3 := q1, q1 := up2)) (r(up2 := q1, q1 := up3)) (insert q1 S)"
proof -
  let ?s = "s(up3 := q1, q1 := up2)"
  have cl: "closed_on s r L" and tr: "transitive_on s L"
    using cy by (simp_all add: cycle_on_def)
  have cl': "closed_on ?s (r(up2 := q1, q1 := up3)) (insert q1 S)"
    using cl sub up2 up3 q1 fw bw e2 e3 by (rule closed_on_join_one)
  have same: "\<forall>v\<in>S. v \<noteq> up3 \<longrightarrow> ?s v = s v" using q1 sub by auto
  note rs = reach_survivors[OF cl sub up2 bw e3 same]
  have inS: "\<exists>j. (?s ^^ j) up2 = v" if "v \<in> S" for v
  proof -
    from tr that up2 sub obtain k where k: "(s ^^ k) up2 = v"
      unfolding transitive_on_def by blast
    with that have "(s ^^ k) up2 \<in> S" by simp
    from rs[OF this] k show ?thesis by (simp only:)
  qed
  have "\<forall>v\<in>insert q1 S. \<exists>k. (?s ^^ k) up2 = v"
  proof
    fix v assume v: "v \<in> insert q1 S"
    show "\<exists>k. (?s ^^ k) up2 = v"
    proof (cases "v = q1")
      case True
      from inS[OF up3] obtain j where "(?s ^^ j) up2 = up3" by blast
      then have "(?s ^^ Suc j) up2 = q1" using q1 sub up3 by auto
      with True show ?thesis by blast
    next
      case False
      with v inS show ?thesis by blast
    qed
  qed
  from transitive_from_base[OF cl' _ this] cl' up2 show ?thesis by (simp add: cycle_on_def)
qed

lemma cycle_on_join_two:
  assumes cy: "cycle_on s r L" and sub: "S \<subseteq> L" and up2: "up2 \<in> S" and up3: "up3 \<in> S"
    and q0: "q0 \<notin> L" and q1: "q1 \<notin> L" and ne: "q0 \<noteq> q1"
    and fw: "\<forall>v\<in>S. v \<noteq> up3 \<longrightarrow> s v \<in> S"
    and bw: "\<forall>v\<in>S. v \<noteq> up2 \<longrightarrow> r v \<in> S"
    and e2: "r up2 \<notin> S" and e3: "s up3 \<notin> S"
  shows "cycle_on (s(up3 := q1, q1 := q0, q0 := up2)) (r(up2 := q0, q0 := q1, q1 := up3))
           (insert q0 (insert q1 S))"
proof -
  let ?s = "s(up3 := q1, q1 := q0, q0 := up2)"
  have cl: "closed_on s r L" and tr: "transitive_on s L"
    using cy by (simp_all add: cycle_on_def)
  have cl': "closed_on ?s (r(up2 := q0, q0 := q1, q1 := up3)) (insert q0 (insert q1 S))"
    using cl sub up2 up3 q0 q1 ne fw bw e2 e3 by (rule closed_on_join_two)
  have same: "\<forall>v\<in>S. v \<noteq> up3 \<longrightarrow> ?s v = s v" using q0 q1 sub by auto
  note rs = reach_survivors[OF cl sub up2 bw e3 same]
  have inS: "\<exists>j. (?s ^^ j) up2 = v" if "v \<in> S" for v
  proof -
    from tr that up2 sub obtain k where k: "(s ^^ k) up2 = v"
      unfolding transitive_on_def by blast
    with that have "(s ^^ k) up2 \<in> S" by simp
    from rs[OF this] k show ?thesis by (simp only:)
  qed
  from inS[OF up3] obtain j where j: "(?s ^^ j) up2 = up3" by blast
  have j1: "(?s ^^ Suc j) up2 = q1" using j q0 q1 sub up3 by auto
  then have j0: "(?s ^^ Suc (Suc j)) up2 = q0" using ne by simp
  have "\<forall>v\<in>insert q0 (insert q1 S). \<exists>k. (?s ^^ k) up2 = v"
    using inS j1 j0 by blast
  from transitive_from_base[OF cl' _ this] cl' up2 show ?thesis by (simp add: cycle_on_def)
qed

lemma cycle_on_move:
  assumes cy: "cycle_on s r A" and q: "q \<in> A" and up: "up \<notin> A"
  shows "cycle_on (s(r q := up, up := s q)) (r(s q := up, up := r q)) (insert up (A - {q}))"
proof -
  let ?s = "s(r q := up, up := s q)"
  let ?f = "\<lambda>v. if v = q then up else v"
  have cl: "closed_on s r A" and tr: "transitive_on s A"
    using cy by (simp_all add: cycle_on_def)
  have cl': "closed_on ?s (r(s q := up, up := r q)) (insert up (A - {q}))"
    using cl q up by (rule closed_on_move)
  have cq: "s q \<in> A" "r q \<in> A" "s (r q) = q" "r (s q) = q" "s q \<noteq> q"
    using cl q by (simp_all add: closed_on_def)
  have step: "?s (?f y) = ?f (s y)" if "y \<in> A" for y
  proof -
    have c: "s y \<in> A" "r (s y) = y" using cl that by (simp_all add: closed_on_def)
    have "s y = q \<longleftrightarrow> y = r q" using c cq by metis
    then show ?thesis using that up cq by auto
  qed
  have shifted: "(?s ^^ k) (?f x) = ?f ((s ^^ k) x)" if "x \<in> A" for x k
  proof (induction k)
    case 0
    show ?case by simp
  next
    case (Suc k)
    have A: "(s ^^ k) x \<in> A" using cl that by (rule closed_on_pow)
    have "(?s ^^ Suc k) (?f x) = ?s ((?s ^^ k) (?f x))" by (simp only: funpow.simps o_apply)
    also have "\<dots> = ?s (?f ((s ^^ k) x))" by (simp only: Suc)
    also have "\<dots> = ?f (s ((s ^^ k) x))" by (rule step[OF A])
    also have "\<dots> = ?f ((s ^^ Suc k) x)" by (simp only: funpow.simps o_apply)
    finally show ?case .
  qed
  have "transitive_on ?s (insert up (A - {q}))"
    unfolding transitive_on_def
  proof (intro ballI)
    fix x v assume x: "x \<in> insert up (A - {q})" and v: "v \<in> insert up (A - {q})"
    obtain x0 where x0: "x0 \<in> A" "?f x0 = x"
      using x q by (cases "x = up") auto
    obtain v0 where v0: "v0 \<in> A" "?f v0 = v"
      using v q by (cases "v = up") auto
    from tr x0(1) v0(1) obtain k where k: "(s ^^ k) x0 = v0" unfolding transitive_on_def by blast
    have "(?s ^^ k) x = (?s ^^ k) (?f x0)" by (simp only: x0(2))
    also have "\<dots> = ?f ((s ^^ k) x0)" by (rule shifted[OF x0(1)])
    also have "\<dots> = v" by (simp only: k v0(2))
    finally have "(?s ^^ k) x = v" .
    then show "\<exists>k. (?s ^^ k) x = v" by blast
  qed
  with cl' show ?thesis by (simp add: cycle_on_def)
qed

lemma cycle_on_cong:
  assumes eq: "\<forall>v\<in>A. s' v = s v \<and> r' v = r v" and cy: "cycle_on s r A"
  shows "cycle_on s' r' A"
proof -
  have cl: "closed_on s r A" and tr: "transitive_on s A"
    using cy by (simp_all add: cycle_on_def)
  have "closed_on s' r' A" using eq cl by (rule closed_on_cong)
  moreover have "transitive_on s' A" using _ cl tr by (rule transitive_on_cong) (simp add: eq)
  ultimately show ?thesis by (simp add: cycle_on_def)
qed

lemma cycle_on_well_formed:
  assumes "cycle_on (succ_of c) (pred_of c) {0..<p c}" and "0 < p c"
    and "p c \<le> current_vertices c"
  shows "well_formed c"
proof -
  have "0 \<in> {0..<p c}" using assms(2) by simp
  with assms(1) have "\<forall>v\<in>{0..<p c}. \<exists>k. (succ_of c ^^ k) 0 = v"
    unfolding cycle_on_def transitive_on_def by blast
  with assms show ?thesis
    by (simp add: well_formed_def cycle_on_def closed_on_def cyclic_adjacency_def no_stale_def
        single_cycle_def live_def)
qed

lemma pred_arc_init:
  assumes wf: "well_formed c" and arc: "succ_arc c up stack up2"
  shows "pred_arc c up2 stack (pred_of c up)"
proof -
  have up: "up \<in> live c" using arc by (auto simp: succ_arc_def)
  have pl: "pred_of c up \<in> live c" using wf up by (rule wf_pred_live)
  have "pred_of c up \<notin> set stack"
  proof
    assume "pred_of c up \<in> set stack"
    with arc have "succ_of c (pred_of c up) \<noteq> up" by (simp add: succ_arc_def)
    then show False using wf_succ_pred[OF wf up] by simp
  qed
  moreover have "succ_of c (pred_of c up) \<in> set stack"
    using wf_succ_pred[OF wf up] arc by (simp add: succ_arc_def)
  ultimately show ?thesis
    using arc pl unfolding succ_arc_def pred_arc_def by auto
qed

lemma pred_arc_step:
  assumes wf: "well_formed c" and big: "1 < p c"
    and arc: "pred_arc c up2 stack up3" and ne: "up3 \<noteq> up2"
  shows "pred_arc c up2 (up3 # stack) (pred_of c up3)"
proof -
  have up3: "up3 \<in> live c" "up3 \<notin> set stack" using arc by (simp_all add: pred_arc_def)
  have n: "pred_of c up3 \<in> live c" using wf up3(1) by (rule wf_pred_live)
  have nf: "pred_of c up3 \<noteq> up3" using wf big up3(1) by (rule no_fixed_point_pred)
  have "pred_of c up3 \<notin> set stack"
  proof
    assume a: "pred_of c up3 \<in> set stack"
    with arc have "succ_of c (pred_of c up3) \<in> insert up2 (set stack)"
      by (simp add: pred_arc_def)
    then show False using wf_succ_pred[OF wf up3(1)] ne up3(2) by simp
  qed
  then show ?thesis
    using arc ne n nf wf_succ_pred[OF wf up3(1)]
    unfolding pred_arc_def by auto
qed

lemma pred_arc_survivors:
  assumes wf: "well_formed c" and arc: "pred_arc c up2 stack up3"
  shows "\<forall>v\<in>live c - set stack. v \<noteq> up3 \<longrightarrow> succ_of c v \<in> live c - set stack"
    and "\<forall>v\<in>live c - set stack. v \<noteq> up2 \<longrightarrow> pred_of c v \<in> live c - set stack"
    and "pred_of c up2 \<notin> live c - set stack" and "succ_of c up3 \<notin> live c - set stack"
    and "up2 \<in> live c - set stack" and "up3 \<in> live c - set stack"
proof -
  show "\<forall>v\<in>live c - set stack. v \<noteq> up3 \<longrightarrow> succ_of c v \<in> live c - set stack"
  proof (intro ballI impI)
    fix v assume v: "v \<in> live c - set stack" "v \<noteq> up3"
    then have vl: "v \<in> live c" by simp
    have "succ_of c v \<notin> set stack"
    proof
      assume "succ_of c v \<in> set stack"
      with arc have "pred_of c (succ_of c v) \<in> insert up3 (set stack)"
        by (simp add: pred_arc_def)
      with wf_pred_succ[OF wf vl] v show False by simp
    qed
    with wf_succ_live[OF wf vl] show "succ_of c v \<in> live c - set stack" by simp
  qed
  show "\<forall>v\<in>live c - set stack. v \<noteq> up2 \<longrightarrow> pred_of c v \<in> live c - set stack"
  proof (intro ballI impI)
    fix v assume v: "v \<in> live c - set stack" "v \<noteq> up2"
    then have vl: "v \<in> live c" by simp
    have "pred_of c v \<notin> set stack"
    proof
      assume "pred_of c v \<in> set stack"
      with arc have "succ_of c (pred_of c v) \<in> insert up2 (set stack)"
        by (simp add: pred_arc_def)
      with wf_succ_pred[OF wf vl] v show False by simp
    qed
    with wf_pred_live[OF wf vl] show "pred_of c v \<in> live c - set stack" by simp
  qed
  show "pred_of c up2 \<notin> live c - set stack" "succ_of c up3 \<notin> live c - set stack"
    "up2 \<in> live c - set stack" "up3 \<in> live c - set stack"
    using arc by (simp_all add: pred_arc_def)
qed

lemmas find_succ_pinduct =
  find_succ.raw_induct[where xa="(((((((cfg,c),x),y),rsq),up3),up2),u2)"
    for cfg c x y rsq up3 up2 u2, simplified, rotated 1, consumes 1]

lemmas find_pred_pinduct =
  find_pred.raw_induct[where xa="(((((((cfg,c),x),y),rsq),up2),up3),u3)"
    for cfg c x y rsq up2 up3 u3, simplified, rotated 1, consumes 1]

lemmas sweep_pred_pinduct =
  sweep_pred.raw_induct[where xa="(((((((((cfg,x),y),rsq),up2),c),stack),up3),l),u3)"
    for cfg x y rsq up2 c stack up3 l u3, simplified, rotated 1, consumes 1]

lemma cds_invariants [simp]:
  "well_formed (c\<lparr>current_delete_size := n\<rparr>) = well_formed c"
  "succ_arc (c\<lparr>current_delete_size := n\<rparr>) = succ_arc c"
  "pred_arc (c\<lparr>current_delete_size := n\<rparr>) = pred_arc c"
  "agrees c0 up2 (c\<lparr>current_delete_size := n\<rparr>) = agrees c0 up2 c"
  by (simp_all add: well_formed_def cyclic_adjacency_def no_stale_def single_cycle_def
      succ_arc_def pred_arc_def agrees_def fun_eq_iff)

lemma find_succ_found:
  "find_succ cfg c x y rsq up3 up2 u2 = Some res \<Longrightarrow> res = Inr (Found up u) \<Longrightarrow>
     well_formed c \<Longrightarrow> up2 \<in> live c \<Longrightarrow> u2 = pos c x y rsq up2 \<Longrightarrow>
     up \<in> live c \<and> u = pos c x y rsq up"
proof (induction rule: find_succ_pinduct)
  case (1 fs cfg c x y rsq up3 up2 u2 res)
  show ?case
  proof (cases "u2 < tolerance cfg")
    case False
    with 1(2) "1.prems" show ?thesis by auto
  next
    case True
    let ?n = "ed c (2 * up2)"
    have nl: "?n \<in> live c" using wf_succ_live[OF "1.prems"(2,3)] by (simp add: succ_of_def)
    from 1(2) True "1.prems"(1)
    have "fs cfg c x y rsq up3 ?n (pos c x y rsq ?n) = Some res"
      by (auto simp: Let_def split: if_splits)
    from 1(1)[OF this "1.prems"(1,2) nl refl] show ?thesis .
  qed
qed

lemma find_pred_found:
  "find_pred cfg c x y rsq up2 up3 u3 = Some res \<Longrightarrow> res = Inr (Found up u) \<Longrightarrow>
     well_formed c \<Longrightarrow> up3 \<in> live c \<Longrightarrow> u3 = pos c x y rsq up3 \<Longrightarrow>
     up \<in> live c \<and> u = pos c x y rsq up"
proof (induction rule: find_pred_pinduct)
  case (1 fs cfg c x y rsq up2 up3 u3 res)
  show ?case
  proof (cases "u3 < tolerance cfg")
    case False
    with 1(2) "1.prems" show ?thesis by auto
  next
    case True
    let ?n = "ed c (2 * up3 + 1)"
    have nl: "?n \<in> live c" using wf_pred_live[OF "1.prems"(2,3)] by (simp add: pred_of_def)
    from 1(2) True "1.prems"(1)
    have "fs cfg c x y rsq up2 ?n (pos c x y rsq ?n) = Some res"
      by (auto simp: Let_def split: if_splits)
    from 1(1)[OF this "1.prems"(1,2) nl refl] show ?thesis .
  qed
qed

lemma find_vertex_found:
  assumes "find_vertex cfg c x y rsq = Some (Inr (Found up u))" and wf: "well_formed c"
  shows "up \<in> live c \<and> u = pos c x y rsq up"
proof -
  have z: "0 \<in> live c" using wf by (rule wf_zero_live)
  have s: "ed c 0 \<in> live c" and r: "ed c 1 \<in> live c"
    using wf_succ_live[OF wf z] wf_pred_live[OF wf z] by (simp_all add: succ_of_def pred_of_def)
  show ?thesis
  proof (cases "pos c x y rsq 0 < tolerance cfg")
    case False
    with assms(1) z show ?thesis by (auto simp: find_vertex_def Let_def split: if_splits)
  next
    case True
    have al: "allocated c 0" "allocated c (ed c 0)" "allocated c (ed c 1)"
      using live_allocated[OF wf] z s r by simp_all
    show ?thesis
    proof (cases "pos c x y rsq (ed c 0) > pos c x y rsq (ed c 1)")
      case g: True
      with assms(1) True al
      have "find_succ cfg c x y rsq (ed c 1) (ed c 0) (pos c x y rsq (ed c 0))
              = Some (Inr (Found up u))"
        by (simp add: find_vertex_def Let_def)
      from find_succ_found[OF this refl wf s refl] show ?thesis .
    next
      case g: False
      with assms(1) True al
      have "find_pred cfg c x y rsq (ed c 0) (ed c 1) (pos c x y rsq (ed c 1))
              = Some (Inr (Found up u))"
        by (simp add: find_vertex_def Let_def)
      from find_pred_found[OF this refl wf r refl] show ?thesis .
    qed
  qed
qed


lemma sweep_succ_swept:
  "sweep_succ cfg x y rsq up c stack up2 l u2 = Some res \<Longrightarrow>
     res = Inr (Swept c1 st up2' l' u2') \<Longrightarrow>
     well_formed c \<Longrightarrow> 1 < p c \<Longrightarrow> succ_arc c up stack up2 \<Longrightarrow> u2 = pos c x y rsq up2 \<Longrightarrow>
     c1 = c\<lparr>current_delete_size := current_delete_size c1\<rparr> \<and> succ_arc c up st up2'
       \<and> u2' = pos c x y rsq up2' \<and> \<not> tolerance cfg < u2'"
proof (induction rule: sweep_succ_pinduct)
  case (1 sw cfg x y rsq up c stack up2 l u2 res)
  show ?case
  proof (cases "tolerance cfg < u2")
    case False
    with 1(2) "1.prems" show ?thesis by auto
  next
    case True
    with 1(2) obtain c' st' where pu: "push cfg c stack up2 = Inr (c', st')"
      using "1.prems"(1) by (auto split: sum.splits)
    from push_frame[OF pu]
    have c': "c' = c\<lparr>current_delete_size := current_delete_size c'\<rparr>" and st': "st' = up2 # stack"
      by simp_all
    let ?n = "ed c' (2 * up2)"
    have n: "?n = succ_of c up2" by (subst c') (simp add: succ_of_def)
    from 1(2) True pu "1.prems"(1)
    have ne: "?n \<noteq> up"
      and run: "sw cfg x y rsq up c' st' ?n u2 (pos c' x y rsq ?n) = Some res"
      by (auto simp: Let_def split: if_splits)
    have arc: "succ_arc c up st' ?n"
      unfolding st' n using "1.prems"(2,3,4) ne[unfolded n] by (rule succ_arc_step)
    have wf': "well_formed c'" "1 < p c'" "succ_arc c' up st' ?n"
      using "1.prems"(2,3) arc by (subst c', simp)+
    from 1(1)[OF run "1.prems"(1) wf' refl]
    have "c1 = c'\<lparr>current_delete_size := current_delete_size c1\<rparr> \<and>
      succ_arc c' up st up2' \<and> u2' = pos c' x y rsq up2' \<and> \<not> tolerance cfg < u2'" .
    then show ?thesis
      by (subst (asm) (1 2 3) c') (simp add: )
  qed
qed

lemma grow_if_full_result:
  assumes "grow_if_full cfg c = Inr c'"
  shows "c' = c\<lparr>current_vertices := current_vertices c'\<rparr>"
    and "allocated c' (p c) \<Longrightarrow> current_vertices c \<le> current_vertices c'"
  using assms
  by (auto simp: grow_if_full_def add_memory_vertices_def Let_def allocated_def split: if_splits)

lemma cut_succ_result:
  assumes "cut_succ cfg c up2 l u2 = Inr (c2, cp)"
  shows "(c2 = c \<and> cp = up2)
    \<or> (cp = p c \<and> p c2 = p c + 1 \<and> ed c2 = (ed c)(2 * p c := up2, 2 * up2 + 1 := p c)
        \<and> (\<forall>i. i \<noteq> 2 * p c \<longrightarrow> i \<noteq> 2 * p c + 1 \<longrightarrow> pts c2 i = pts c i)
        \<and> current_vertices c \<le> current_vertices c2 \<and> allocated c2 (p c))"
proof (cases "u2 > - tolerance cfg")
  case True
  with assms show ?thesis by (simp add: cut_succ_def)
next
  case False
  with assms obtain c' where g: "grow_if_full cfg c = Inr c'"
    by (auto simp: cut_succ_def split: sum.splits)
  note c' = grow_if_full_result[OF g]
  from assms False g have al: "allocated c' (p c')"
    by (auto simp: cut_succ_def Let_def split: if_splits)
  have pc: "p c' = p c" by (subst c'(1)) simp
  have edc: "ed c' = ed c" and ptc: "pts c' = pts c" by (subst c'(1), simp)+
  from assms False g al
  have "cp = p c' \<and> p c2 = p c' + 1 \<and> ed c2 = (ed c')(2 * p c' := up2, 2 * up2 + 1 := p c')
        \<and> (\<forall>i. i \<noteq> 2 * p c' \<longrightarrow> i \<noteq> 2 * p c' + 1 \<longrightarrow> pts c2 i = pts c' i)
        \<and> current_vertices c2 = current_vertices c'"
    by (auto simp: cut_succ_def Let_def split: if_splits)
  then show ?thesis
    using c'(2) al by (simp add: pc edc ptc allocated_def)
qed

lemma cut_pred_result:
  assumes "cut_pred cfg c cp up3 l u3 = Inr c4" and "\<not> tolerance cfg < u3"
  shows "p c4 = p c + 1
    \<and> ed c4 = (ed c)(2 * p c := cp, 2 * cp + 1 := p c, 2 * p c + 1 := up3, 2 * up3 := p c)
    \<and> current_vertices c \<le> current_vertices c4 \<and> allocated c4 (p c)"
proof -
  from assms obtain c' where g: "grow_if_full cfg c = Inr c'"
    by (auto simp: cut_pred_def split: sum.splits)
  note c' = grow_if_full_result[OF g]
  from assms g have al: "allocated c' (p c')"
    by (auto simp: cut_pred_def Let_def split: if_splits)
  have pc: "p c' = p c" by (subst c'(1)) simp
  have edc: "ed c' = ed c" by (subst c'(1)) simp
  from assms g al
  have "p c4 = p c' + 1
    \<and> ed c4 = (ed c')(2 * p c' := cp, 2 * cp + 1 := p c', 2 * p c' + 1 := up3, 2 * up3 := p c')
    \<and> current_vertices c4 = current_vertices c'"
    by (auto simp: cut_pred_def Let_def split: if_splits)
  then show ?thesis
    using c'(2) al by (simp add: pc edc allocated_def)
qed

lemma agrees_pos:
  "agrees c up2 c2 \<Longrightarrow> v \<in> live c \<Longrightarrow> pos c2 x y rsq v = pos c x y rsq v"
  by (simp add: agrees_def pos_def)

lemma sweep_pred_result:
  "sweep_pred cfg x y rsq up2 c2 stack up3 l u3 = Some res \<Longrightarrow>
     res = Inr (c3, st, up3', l', u3') \<Longrightarrow>
     well_formed c \<Longrightarrow> 1 < p c \<Longrightarrow> agrees c up2 c2 \<Longrightarrow> pred_arc c up2 stack up3 \<Longrightarrow>
     u3 = pos c x y rsq up3 \<Longrightarrow> \<not> tolerance cfg < pos c x y rsq up2 \<Longrightarrow>
     c3 = c2\<lparr>current_delete_size := current_delete_size c3\<rparr> \<and> pred_arc c up2 st up3'
       \<and> \<not> tolerance cfg < u3'"
proof (induction rule: sweep_pred_pinduct)
  case (1 sw cfg x y rsq up2 c2 stack up3 l u3 res)
  note wf = "1.prems"(2) and big = "1.prems"(3) and ag = "1.prems"(4) and arc = "1.prems"(5)
    and u3 = "1.prems"(6) and nt = "1.prems"(7)
  show ?case
  proof (cases "tolerance cfg < u3")
    case False
    with 1(2) "1.prems"(1) arc show ?thesis by auto
  next
    case True
    with 1(2) obtain c' st' where pu: "push cfg c2 stack up3 = Inr (c', st')"
      using "1.prems"(1) by (auto split: sum.splits)
    from push_frame[OF pu]
    have c': "c' = c2\<lparr>current_delete_size := current_delete_size c'\<rparr>" and st': "st' = up3 # stack"
      by simp_all
    have ne: "up3 \<noteq> up2" using True u3 nt by auto
    have up3: "up3 \<in> live c" using arc by (simp add: pred_arc_def)
    let ?n = "ed c' (2 * up3 + 1)"
    have "?n = ed c2 (2 * up3 + 1)" by (subst c') simp
    then have n: "?n = pred_of c up3" using ag up3 ne by (simp add: agrees_def pred_of_def)
    have nl: "?n \<in> live c" unfolding n using wf up3 by (rule wf_pred_live)
    have ag': "agrees c up2 c'" using ag by (subst c') simp
    have arc': "pred_arc c up2 st' ?n"
      unfolding st' n using wf big arc ne by (rule pred_arc_step)
    have pn: "pos c' x y rsq ?n = pos c x y rsq ?n" using ag' nl by (rule agrees_pos)
    show ?thesis
    proof (cases "?n = up2")
      case eq: True
      with 1(2) True pu "1.prems"(1)
      have "c3 = c'" "st = st'" "up3' = ?n" "u3' = pos c' x y rsq ?n"
        by (auto simp: Let_def split: if_splits)
      then show ?thesis using c' arc' pn eq nt by simp
    next
      case neq: False
      with 1(2) True pu "1.prems"(1)
      have run: "sw cfg x y rsq up2 c' st' ?n u3 (pos c' x y rsq ?n) = Some res"
        by (auto simp: Let_def split: if_splits)
      from 1(1)[OF run "1.prems"(1) wf big ag' arc' pn nt]
      have "c3 = c'\<lparr>current_delete_size := current_delete_size c3\<rparr> \<and> pred_arc c up2 st up3'
         \<and> \<not> tolerance cfg < u3'" .
      then show ?thesis by (subst (asm) c') simp
    qed
  qed
qed

lemma odd_even_index [simp]:
  "2 * a + 1 \<noteq> 2 * (b::int)" "2 * a \<noteq> 2 * (b::int) + 1"
  by presburger+

lemma scan_result:
  "scan c q0 = Inr q \<Longrightarrow>
     q < q0 \<and> allocated c q \<and> ed c (2 * q) \<noteq> - 1 \<and> (\<forall>i. q < i \<and> i < q0 \<longrightarrow> ed c (2 * i) = - 1)"
proof (induction c q0 rule: scan.induct)
  case (1 c q0)
  from "1.prems" have al: "allocated c (q0 - 1)"
    by (subst (asm) scan.simps) (auto simp: Let_def split: if_splits)
  show ?case
  proof (cases "ed c (2 * (q0 - 1)) = - 1")
    case True
    with "1.prems" al have "scan c (q0 - 1) = Inr q"
      by (subst (asm) scan.simps) (simp add: Let_def)
    from "1.IH"[OF refl _ True this] al
    have ih: "q < q0 - 1" "allocated c q" "ed c (2 * q) \<noteq> - 1"
      "\<forall>i. q < i \<and> i < q0 - 1 \<longrightarrow> ed c (2 * i) = - 1" by simp_all
    have "ed c (2 * i) = - 1" if "q < i" "i < q0" for i
    proof (cases "i = q0 - 1")
      case True
      then show ?thesis using \<open>ed c (2 * (q0 - 1)) = - 1\<close> by simp
    next
      case False
      with that have "i < q0 - 1" by arith
      with ih(4) that(1) show ?thesis by blast
    qed
    with ih show ?thesis by auto
  next
    case False
    with "1.prems" al have "q = q0 - 1"
      by (subst (asm) scan.simps) (simp add: Let_def)
    with al False show ?thesis by auto
  qed
qed

lemma scan_top:
  assumes inv: "compact_inv c stack" and sc: "scan c (p c) = Inr q"
  shows "q \<in> {0..<p c} - set stack" and "\<forall>i\<in>{0..<p c} - set stack. i \<le> q"
proof -
  note r = scan_result[OF sc]
  have cl: "closed_on (succ_of c) (pred_of c) ({0..<p c} - set stack)"
    using inv by (simp add: compact_inv_def cycle_on_def)
  have "q \<notin> set stack"
  proof
    assume "q \<in> set stack"
    with inv r show False by (auto simp: compact_inv_def)
  qed
  with r show "q \<in> {0..<p c} - set stack" by (simp add: allocated_def)
  show "\<forall>i\<in>{0..<p c} - set stack. i \<le> q"
  proof
    fix i assume i: "i \<in> {0..<p c} - set stack"
    with cl have "succ_of c i \<in> {0..<p c} - set stack" by (simp add: closed_on_def)
    then have "ed c (2 * i) \<noteq> - 1" by (auto simp: succ_of_def)
    with r i show "i \<le> q" by (metis DiffD1 atLeastLessThan_iff not_le_imp_less)
  qed
qed

lemma compact_skip:
  assumes inv: "compact_inv c (up # stack)" and sc: "scan c (p c) = Inr q" and ge: "\<not> up < q"
  shows "compact_inv (c\<lparr>p := q + 1\<rparr>) stack"
proof -
  note t = scan_top[OF inv sc]
  have qp: "q < p c" using t(1) by simp
  have upq: "up \<noteq> q" using t(1) by auto
  have eq: "{0..<q + 1} - set stack = {0..<p c} - set (up # stack)"
  proof (intro set_eqI iffI)
    fix v assume "v \<in> {0..<q + 1} - set stack"
    then show "v \<in> {0..<p c} - set (up # stack)" using ge upq qp by auto
  next
    fix v assume v: "v \<in> {0..<p c} - set (up # stack)"
    with t(2) have "v \<le> q" by blast
    with v show "v \<in> {0..<q + 1} - set stack" by auto
  qed
  have so: "succ_of (c\<lparr>p := q + 1\<rparr>) = succ_of c" "pred_of (c\<lparr>p := q + 1\<rparr>) = pred_of c"
    by (simp_all add: succ_of_def pred_of_def fun_eq_iff)
  show ?thesis
    using inv qp unfolding compact_inv_def so by (simp add: eq del: set_simps) auto
qed

lemma compact_move:
  assumes inv: "compact_inv c (up # stack)" and sc: "scan c (p c) = Inr q" and lt: "up < q"
    and c': "c' = c\<lparr>p := q, pts := pts',
       ed := (ed c)(2 * succ_of c q + 1 := up, 2 * pred_of c q := up,
                    2 * up := succ_of c q, 2 * up + 1 := pred_of c q)\<rparr>"
  shows "compact_inv c' stack"
proof -
  note t = scan_top[OF inv sc]
  let ?A = "{0..<p c} - set (up # stack)"
  have cy: "cycle_on (succ_of c) (pred_of c) ?A" using inv by (simp add: compact_inv_def)
  then have cl: "closed_on (succ_of c) (pred_of c) ?A" by (simp add: cycle_on_def)
  have qp: "q < p c" using t(1) by simp
  have up: "up \<notin> ?A" "0 \<le> up" "up \<notin> set stack" using inv by (auto simp: compact_inv_def)
  have cq: "succ_of c q \<in> ?A" "pred_of c q \<in> ?A"
    using cl t(1) by (simp_all add: closed_on_def)
  have eq: "{0..<p c'} - set stack = insert up (?A - {q})"
  proof (intro set_eqI iffI)
    fix v assume "v \<in> {0..<p c'} - set stack"
    then show "v \<in> insert up (?A - {q})" using qp by (auto simp: c')
  next
    fix v assume v: "v \<in> insert up (?A - {q})"
    show "v \<in> {0..<p c'} - set stack"
    proof (cases "v = up")
      case True
      then show ?thesis using up lt by (simp add: c')
    next
      case False
      with v have "v \<in> ?A" "v \<noteq> q" by auto
      moreover from this t(2) have "v \<le> q" by blast
      ultimately show ?thesis by (auto simp: c')
    qed
  qed
  have s': "succ_of c' = (succ_of c)(pred_of c q := up, up := succ_of c q)"
    by (auto simp: succ_of_def pred_of_def c' fun_eq_iff)
  have r': "pred_of c' = (pred_of c)(succ_of c q := up, up := pred_of c q)"
    by (auto simp: succ_of_def pred_of_def c' fun_eq_iff)
  have "cycle_on (succ_of c') (pred_of c') ({0..<p c'} - set stack)"
    unfolding s' r' eq using cy t(1) up(1) by (rule cycle_on_move)
  moreover have "\<forall>d\<in>set stack. 0 \<le> d \<and> (d < p c' \<longrightarrow> ed c' (2 * d) = - 1)"
  proof
    fix d assume d: "d \<in> set stack"
    then have "d \<noteq> up" "d \<noteq> pred_of c q" using up(3) cq(2) by auto
    moreover have "0 \<le> d" "d < p c \<longrightarrow> ed c (2 * d) = - 1"
      using inv d by (simp_all add: compact_inv_def)
    ultimately show "0 \<le> d \<and> (d < p c' \<longrightarrow> ed c' (2 * d) = - 1)"
      using qp by (simp add: c')
  qed
  moreover have "{0..<p c'} - set stack \<noteq> {}" unfolding eq by simp
  moreover have "distinct stack" "p c' \<le> current_vertices c'"
    using inv qp by (simp_all add: compact_inv_def c')
  ultimately show ?thesis by (simp add: compact_inv_def)
qed

lemma compact_result:
  "compact c stack = Inr c' \<Longrightarrow> compact_inv c stack \<Longrightarrow>
     cycle_on (succ_of c') (pred_of c') {0..<p c'} \<and> 0 < p c' \<and> p c' \<le> current_vertices c'"
proof (induction stack arbitrary: c)
  case Nil
  then show ?case by (auto simp: compact_inv_def)
next
  case (Cons up stack)
  from Cons.prems(1) obtain q where sc: "scan c (p c) = Inr q"
    by (auto split: sum.splits)
  note t = scan_top[OF Cons.prems(2) sc]
  show ?case
  proof (cases "up < q")
    case False
    with Cons.prems(1) sc have "compact (c\<lparr>p := q + 1\<rparr>) stack = Inr c'"
      by (simp add: Let_def)
    from Cons.IH[OF this compact_skip[OF Cons.prems(2) sc False]] show ?thesis .
  next
    case True
    let ?A = "{0..<p c} - set (up # stack)"
    have cl: "closed_on (succ_of c) (pred_of c) ?A"
      using Cons.prems(2) by (simp add: compact_inv_def cycle_on_def)
    have nq: "succ_of c q \<noteq> q" "pred_of c q \<noteq> q"
      using cl t(1) unfolding closed_on_def by metis+
    let ?c = "c\<lparr>p := q,
       pts := (pts c)(2 * up := pts c (2 * q), 2 * up + 1 := pts c (2 * q + 1)),
       ed := (ed c)(2 * succ_of c q + 1 := up, 2 * pred_of c q := up,
                    2 * up := succ_of c q, 2 * up + 1 := pred_of c q)\<rparr>"
    from Cons.prems(1) sc True nq have "compact ?c stack = Inr c'"
      by (simp add: Let_def succ_of_def pred_of_def split: if_splits)
    from Cons.IH[OF this compact_move[OF Cons.prems(2) sc True refl]] show ?thesis .
  qed
qed

lemma mark_fields [simp]:
  "p (mark st c) = p c" "current_vertices (mark st c) = current_vertices c"
  "pts (mark st c) = pts c"
  by (simp_all add: mark_def)

lemma mark_ed: "ed (mark st c) i = (if \<exists>s\<in>set st. i = 2 * s then - 1 else ed c i)"
proof -
  have "foldr (\<lambda>sp e. e(sp * 2 := - 1)) st e i = (if \<exists>s\<in>set st. i = 2 * s then - 1 else e i)"
    for e :: "int \<Rightarrow> int"
    by (induction st) (auto simp: mult.commute)
  then show ?thesis by (simp add: mark_def)
qed

lemma live_grow_one:
  assumes "set st \<subseteq> live c" and "0 \<le> p c"
  shows "{0..<p c + 1} - set st = insert (p c) (live c - set st)"
  using assms by (auto simp: live_def)

lemma live_grow_two:
  assumes "set st \<subseteq> live c" and "0 \<le> p c"
  shows "{0..<p c + 2} - set st = insert (p c) (insert (p c + 1) (live c - set st))"
  using assms by (auto simp: live_def)

lemma splice_result:
  assumes wf: "well_formed c" and big: "1 < p c"
    and arc: "succ_arc c up stack up2"
    and nt: "\<not> tolerance cfg < pos c x y rsq up2"
    and c1: "c1 = c\<lparr>current_delete_size := n\<rparr>"
    and run: "splice cfg x y rsq up u c1 stack up2 l u2 = Some (Inr c')"
  shows "cycle_on (succ_of c') (pred_of c') {0..<p c'} \<and> 0 < p c'
    \<and> p c' \<le> current_vertices c'"
proof -
  from run obtain c2 cp where cs: "cut_succ cfg c1 up2 l u2 = Inr (c2, cp)"
    by (auto simp: splice_def split: sum.splits)
  have up: "up \<in> live c" "up \<noteq> up2" using arc by (auto simp: succ_arc_def)
  have p0: "0 \<le> p c" using big by simp
  have f1: "p c1 = p c" "ed c1 = ed c" "pts c1 = pts c"
    "current_vertices c1 = current_vertices c" by (simp_all add: c1)
  from cut_succ_result[OF cs] have ag: "agrees c up2 c2"
    unfolding f1 by (auto simp: agrees_def c1 live_def)
  let ?up3 = "ed c2 (2 * up + 1)"
  have up3: "?up3 = pred_of c up" using ag up by (simp add: agrees_def pred_of_def)
  have up3l: "?up3 \<in> live c" unfolding up3 using wf up(1) by (rule wf_pred_live)
  have pu3: "pos c2 x y rsq ?up3 = pos c x y rsq ?up3" using ag up3l by (rule agrees_pos)
  from run cs obtain c3 st up3' l' u3 c4 where
    sp: "sweep_pred cfg x y rsq up2 c2 stack ?up3 u (pos c2 x y rsq ?up3)
           = Some (Inr (c3, st, up3', l', u3))"
    and cpr: "cut_pred cfg c3 cp up3' l' u3 = Inr c4"
    and co: "compact (mark st c4) st = Inr c'"
    by (auto simp: splice_def Let_def split: sum.splits option.splits if_splits)
  have parc0: "pred_arc c up2 stack ?up3"
    unfolding up3 using wf arc by (rule pred_arc_init)
  from sweep_pred_result[OF sp refl wf big ag parc0 pu3 nt]
  have c3: "c3 = c2\<lparr>current_delete_size := current_delete_size c3\<rparr>"
    and parc: "pred_arc c up2 st up3'" and nt3: "\<not> tolerance cfg < u3" by simp_all
  have f3: "p c3 = p c2" "ed c3 = ed c2" by (subst c3, simp)+
  note c4 = cut_pred_result[OF cpr nt3, unfolded f3]
  note sv = pred_arc_survivors[OF wf parc]
  have st: "distinct st" "set st \<subseteq> live c" using parc by (simp_all add: pred_arc_def)
  have cl: "cycle_on (succ_of c) (pred_of c) (live c)" using wf big by (rule wf_cycle_on)
  have pl: "p c \<notin> live c" "p c + 1 \<notin> live c" by (simp_all add: live_def)
  have lp: "v \<in> live c \<Longrightarrow> v \<noteq> p c \<and> v \<noteq> p c + 1" for v by (auto simp: live_def)
  have inv: "compact_inv (mark st c4) st"
  proof -
    have a: "p (mark st c4) \<le> current_vertices (mark st c4)"
      using c4 by (simp add: allocated_def)
    have b: "\<forall>d\<in>set st. 0 \<le> d \<and> (d < p (mark st c4) \<longrightarrow> ed (mark st c4) (2 * d) = - 1)"
      using st(2) by (auto simp: mark_ed live_def)
    have unm: "v \<notin> set st \<Longrightarrow> succ_of (mark st c4) v = ed c4 (2 * v)
        \<and> pred_of (mark st c4) v = ed c4 (2 * v + 1)" for v
      by (auto simp: succ_of_def pred_of_def mark_ed)
    from cut_succ_result[OF cs]
    have "{0..<p (mark st c4)} - set st \<noteq> {}
      \<and> cycle_on (succ_of (mark st c4)) (pred_of (mark st c4)) ({0..<p (mark st c4)} - set st)"
    proof
      assume k: "c2 = c1 \<and> cp = up2"
      then have e2: "ed c2 = ed c" "p c2 = p c" by (simp_all add: f1)
      have pe: "p (mark st c4) = p c + 1" using c4 e2 by simp
      have ls: "{0..<p (mark st c4)} - set st = insert (p c) (live c - set st)"
        unfolding pe using st(2) p0 by (rule live_grow_one)
      have j: "cycle_on ((succ_of c)(up3' := p c, p c := up2)) ((pred_of c)(up2 := p c, p c := up3'))
          (insert (p c) (live c - set st))"
        using cl _ sv(5,6) pl(1) sv(1,2,3,4) by (rule cycle_on_join_one) simp
      have "cycle_on (succ_of (mark st c4)) (pred_of (mark st c4)) (insert (p c) (live c - set st))"
      proof (rule cycle_on_cong[OF _ j], rule ballI)
        fix v assume "v \<in> insert (p c) (live c - set st)"
        then have "v \<notin> set st" using pl(1) st(2) by auto
        from unm[OF this] lp[of up2] lp[of up3'] sv(5,6)
        show "succ_of (mark st c4) v = ((succ_of c)(up3' := p c, p c := up2)) v \<and>
          pred_of (mark st c4) v = ((pred_of c)(up2 := p c, p c := up3')) v"
          using c4 e2 k by (simp add: succ_of_def pred_of_def)
      qed
      then show ?thesis unfolding ls by simp
    next
      assume k: "cp = p c1 \<and> p c2 = p c1 + 1
        \<and> ed c2 = (ed c1)(2 * p c1 := up2, 2 * up2 + 1 := p c1)
        \<and> (\<forall>i. i \<noteq> 2 * p c1 \<longrightarrow> i \<noteq> 2 * p c1 + 1 \<longrightarrow> pts c2 i = pts c1 i)
        \<and> current_vertices c1 \<le> current_vertices c2 \<and> allocated c2 (p c1)"
      then have e2: "ed c2 = (ed c)(2 * p c := up2, 2 * up2 + 1 := p c)" "p c2 = p c + 1"
        "cp = p c"
        by (simp_all add: f1)
      have pe: "p (mark st c4) = p c + 2" using c4 e2 by simp
      have ls: "{0..<p (mark st c4)} - set st = insert (p c) (insert (p c + 1) (live c - set st))"
        unfolding pe using st(2) p0 by (rule live_grow_two)
      have j: "cycle_on ((succ_of c)(up3' := p c + 1, p c + 1 := p c, p c := up2))
          ((pred_of c)(up2 := p c, p c := p c + 1, p c + 1 := up3'))
          (insert (p c) (insert (p c + 1) (live c - set st)))"
        using cl _ sv(5,6) pl(1,2) _ sv(1,2,3,4) by (rule cycle_on_join_two) simp_all
      have "cycle_on (succ_of (mark st c4)) (pred_of (mark st c4))
          (insert (p c) (insert (p c + 1) (live c - set st)))"
      proof (rule cycle_on_cong[OF _ j], rule ballI)
        fix v assume "v \<in> insert (p c) (insert (p c + 1) (live c - set st))"
        then have "v \<notin> set st" using pl st(2) by auto
        from unm[OF this] lp[of up2] lp[of up3'] sv(5,6)
        show "succ_of (mark st c4) v
              = ((succ_of c)(up3' := p c + 1, p c + 1 := p c, p c := up2)) v \<and>
          pred_of (mark st c4) v = ((pred_of c)(up2 := p c, p c := p c + 1, p c + 1 := up3')) v"
          using c4 e2 by (simp add: succ_of_def pred_of_def)
      qed
      then show ?thesis unfolding ls by simp
    qed
    with a b st(1) show ?thesis by (simp add: compact_inv_def)
  qed
  from compact_result[OF co inv] show ?thesis .
qed

lemma push_arrays:
  "push cfg c stack v = Inr (c', stack') \<Longrightarrow>
     ed c' = ed c \<and> pts c' = pts c \<and> p c' = p c \<and> current_vertices c' = current_vertices c"
  by (auto simp: push_def add_memory_ds_def Let_def split: if_splits sum.splits)

lemma splice_result_inr: "map_sum id (Pair True) z = Inr (True, c') \<longleftrightarrow> z = Inr c'"
  by (cases z) auto

lemma single_vertex_spliced:
  assumes e: "ed c 0 = 0" "ed c 1 = 0" and p1: "p c = 1" and tol: "0 < tolerance cfg"
    and nl: "\<not> pos c x y rsq 0 < tolerance cfg"
    and sw: "sweep_succ cfg x y rsq 0 c [0] 0 (pos c x y rsq 0) (pos c x y rsq 0)
      = Some (Inr (Swept c1 st up2 l u2))"
    and sp: "splice cfg x y rsq 0 (pos c x y rsq 0) c1 st up2 l u2 = Some (Inr c')"
  shows "p c' = 1 \<and> ed c' 0 = 0 \<and> ed c' 1 = 0 \<and> p c' \<le> current_vertices c'"
proof -
  let ?u = "pos c x y rsq 0"
  have nt: "\<not> tolerance cfg < ?u"
  proof
    assume "tolerance cfg < ?u"
    with sw show False
      by (subst (asm) sweep_succ.simps)
        (auto simp: Let_def e dest!: push_arrays split: sum.splits if_splits)
  qed
  with sw have r: "c1 = c" "st = [0]" "up2 = 0" "l = ?u" "u2 = ?u"
    by (subst (asm) sweep_succ.simps, simp)+
  have u: "?u = tolerance cfg" using nl nt by simp
  have cs: "cut_succ cfg c 0 ?u ?u = Inr (c, 0)"
    using tol by (simp add: cut_succ_def u)
  have swp: "sweep_pred cfg x y rsq 0 c [0] 0 ?u ?u = Some (Inr (c, [0], 0, ?u, ?u))"
    using nt by (subst sweep_pred.simps) simp
  from sp obtain c4 where cp: "cut_pred cfg c 0 0 ?u ?u = Inr c4"
    and co: "compact (mark [0] c4) [0] = Inr c'"
    unfolding r by (auto simp: splice_def Let_def e cs swp split: sum.splits if_splits)
  from cp nt have c4: "p c4 = 2" "ed c4 = (ed c)(2 := 0, 1 := 1, 3 := 0, 0 := 1)"
    "2 \<le> current_vertices c4"
    by (auto simp: cut_pred_def grow_if_full_def add_memory_vertices_def Let_def e p1
        allocated_def split: sum.splits if_splits)
  from co show ?thesis
    by (auto simp: mark_def scan.simps allocated_def Let_def c4 split: sum.splits if_splits)
qed

lemma single_vertex_well_formed:
  assumes "p c = 1" and "ed c 0 = 0" and "ed c 1 = 0" and "p c \<le> current_vertices c"
  shows "well_formed c"
proof -
  have l: "live c = {0}" using assms(1) by (auto simp: live_def)
  have "(succ_of c ^^ 0) 0 = 0" by simp
  then have "\<exists>k. (succ_of c ^^ k) 0 = 0" by blast
  then show ?thesis
    using assms
    by (simp add: well_formed_def cyclic_adjacency_def no_stale_def single_cycle_def l
        succ_of_def pred_of_def)
qed

text \<open>
  C6, amended. The tolerance is positive, as the spec defines it, and the cell is not empty,
  lies within its allocation and has the adjacency invariants P1, P2 and P3. After a call
  of \<^verbatim>\<open>plane\<close> that returns true, every \<open>v\<close> in \<^verbatim>\<open>[0, p)\<close> has its successor and its
  predecessor in \<^verbatim>\<open>[0, p)\<close>, so that no stale index and no mark is left, and
  \<^verbatim>\<open>succ(pred(v)) = v\<close> and \<^verbatim>\<open>pred(succ(v)) = v\<close>. The vertices still form a single cycle
  through vertex 0, and the cell is again not empty and within its allocation: the
  returned cell is well formed, so the property holds after every further call that
  returns true. The calls in which \<^verbatim>\<open>fac\<close> has a zero divisor return true as well and are
  among those the statement is about.
\<close>

theorem plane_keeps_adjacency:
  assumes wf: "well_formed c" and tol: "0 < tolerance cfg"
    and run: "plane cfg c x y rsq = Some (Inr (True, c'))"
  shows "cyclic_adjacency c' \<and> no_stale c' \<and> single_cycle c'
    \<and> 0 < p c' \<and> p c' \<le> current_vertices c'"
proof (cases "find_vertex cfg c x y rsq = Some (Inr NotCut)")
  case True
  with run have "c' = c" by (simp add: plane_def)
  with wf show ?thesis by (simp add: well_formed_def)
next
  case False
  with run obtain up u where fv: "find_vertex cfg c x y rsq = Some (Inr (Found up u))"
    by (auto simp: plane_def split: option.splits sum.splits found.splits)
  from find_vertex_found[OF fv wf] have up: "up \<in> live c" and u: "u = pos c x y rsq up"
    by simp_all
  from run fv obtain c1 st up2 l u2 where
    sw: "sweep_succ cfg x y rsq up c [up] (ed c (2 * up)) u (pos c x y rsq (ed c (2 * up)))
      = Some (Inr (Swept c1 st up2 l u2))"
    and sp: "splice cfg x y rsq up u c1 st up2 l u2 = Some (Inr c')"
    by (auto simp: plane_def Let_def splice_result_inr
        split: option.splits sum.splits sweep.splits if_splits)
  have "well_formed c'"
  proof (cases "1 < p c")
    case True
    have arc: "succ_arc c up [up] (ed c (2 * up))"
      using succ_arc_init[OF wf True up] by (simp add: succ_of_def)
    from sweep_succ_swept[OF sw refl wf True arc refl]
    have c1: "c1 = c\<lparr>current_delete_size := current_delete_size c1\<rparr>"
      and arc': "succ_arc c up st up2" and nt: "\<not> tolerance cfg < pos c x y rsq up2"
      by auto
    from splice_result[OF wf True arc' nt c1 sp] show ?thesis
      by (blast intro: cycle_on_well_formed)
  next
    case False
    then have p1: "p c = 1" using wf by (simp add: well_formed_def)
    then have l: "live c = {0}" by (auto simp: live_def)
    with up have up0: "up = 0" by simp
    have e: "ed c 0 = 0" "ed c 1 = 0"
      using wf_succ_live[OF wf up] wf_pred_live[OF wf up] l
      by (simp_all add: up0 succ_of_def pred_of_def)
    have nl: "\<not> pos c x y rsq 0 < tolerance cfg"
    proof
      assume "pos c x y rsq 0 < tolerance cfg"
      with fv show False
        by (simp add: find_vertex_def find_pred.simps e Let_def split: if_splits)
    qed
    have sw0: "sweep_succ cfg x y rsq 0 c [0] 0 (pos c x y rsq 0) (pos c x y rsq 0)
      = Some (Inr (Swept c1 st up2 l u2))"
      using sw by (simp add: up0 u e)
    have sp0: "splice cfg x y rsq 0 (pos c x y rsq 0) c1 st up2 l u2 = Some (Inr c')"
      using sp by (simp add: up0 u)
    from single_vertex_spliced[OF e p1 tol nl sw0 sp0] show ?thesis
      by (blast intro: single_vertex_well_formed)
  qed
  then show ?thesis by (simp add: well_formed_def)
qed

text \<open>A cut of the rectangle in which \<^verbatim>\<open>fac=1/(u3-l)\<close> has the divisor zero: vertices 0
  and 3 lie at the tolerance. The call returns true with five vertices.\<close>

lemma plane_zero_divisor_example:
  "\<exists>c'. plane cfg0 seed (- tolerance cfg0 / 2) 0 0 = Some (Inr (True, c')) \<and> p c' = 5"
  by (simp add: ev)

theorem plane_keeps_adjacency_witness:
  "well_formed seed \<and> 0 < tolerance cfg0
     \<and> (\<exists>c'. plane cfg0 seed (- tolerance cfg0 / 2) 0 0 = Some (Inr (True, c')) \<and> p c' = 5
          \<and> cyclic_adjacency c' \<and> no_stale c' \<and> single_cycle c')"
proof -
  from plane_zero_divisor_example obtain c'
    where c': "plane cfg0 seed (- tolerance cfg0 / 2) 0 0 = Some (Inr (True, c'))" "p c' = 5"
    by blast
  have tol: "0 < tolerance cfg0" by (simp add: cfg0_def)
  from plane_keeps_adjacency[OF seed_well_formed tol c'(1)] c' seed_well_formed tol
  show ?thesis by blast
qed

text \<open>
  C6 as stated: the property holds after every call that returns true on a cell with the
  adjacency invariants. The rectangle with \<^verbatim>\<open>p\<close> set to 0 has no vertex in use, so P1, P2
  and P3 hold of it, and it lies within its allocation. \<^verbatim>\<open>plane(1, 0, 1)\<close> returns true on
  it and leaves \<^verbatim>\<open>p = 1\<close> with index 1 as the successor and the predecessor of vertex 0.
\<close>

theorem empty_cell_cut_leaves_stale_link:
  "p (seed\<lparr>p := 0\<rparr>) = 0
   \<and> p (seed\<lparr>p := 0\<rparr>) \<le> current_vertices (seed\<lparr>p := 0\<rparr>)
   \<and> cyclic_adjacency (seed\<lparr>p := 0\<rparr>) \<and> no_stale (seed\<lparr>p := 0\<rparr>)
   \<and> single_cycle (seed\<lparr>p := 0\<rparr>)
   \<and> flag_and_count (plane cfg0 (seed\<lparr>p := 0\<rparr>) 1 0 1) = Some (True, 1)
   \<and> after_plane (plane cfg0 (seed\<lparr>p := 0\<rparr>) 1 0 1) (links 0) = Some (Inr (1, 1))"
proof -
  have "flag_and_count (plane cfg0 (seed\<lparr>p := 0\<rparr>) 1 0 1) = Some (True, 1)"
    and "after_plane (plane cfg0 (seed\<lparr>p := 0\<rparr>) 1 0 1) (links 0) = Some (Inr (1, 1))"
    by (simp_all add: flag_and_count_def after_plane_def links_def ev)
  then show ?thesis
    by (simp add: cyclic_adjacency_def no_stale_def single_cycle_def live_def seed_def)
qed

text \<open>P2 is needed among the invariants: on the rectangle with a stray fifth vertex, which
  has P1 and P3, \<^verbatim>\<open>plane(1, 1, -4)\<close> returns true and leaves \<^verbatim>\<open>p = 3\<close> with index 4 as the
  successor of vertex 2.\<close>

lemma stray_vertex_leaves_stale_link:
  "cyclic_adjacency stray \<and> no_stale stray \<and> \<not> single_cycle stray
   \<and> 0 < p stray \<and> p stray \<le> current_vertices stray
   \<and> flag_and_count (plane cfg0 stray 1 1 (- 4)) = Some (True, 3)
   \<and> after_plane (plane cfg0 stray 1 1 (- 4)) (links 2) = Some (Inr (4, 2))"
proof -
  have "flag_and_count (plane cfg0 stray 1 1 (- 4)) = Some (True, 3)"
    and "after_plane (plane cfg0 stray 1 1 (- 4)) (links 2) = Some (Inr (4, 2))"
    by (simp_all add: flag_and_count_def after_plane_def links_def ev stray_def)
  moreover have "\<not> single_cycle stray"
  proof
    assume sc: "single_cycle stray"
    have r: "(succ_of stray ^^ k) 0 \<in> {0, 1, 2, 3}" for k
      by (induction k) (auto simp: succ_of_def stray_def seed_def)
    have "(succ_of stray ^^ k) 0 \<noteq> 4" for k using r[of k] by auto
    moreover have "4 \<in> live stray" by (simp add: live_def stray_def)
    ultimately show False using sc by (auto simp: single_cycle_def)
  qed
  ultimately show ?thesis
    by (simp add: cyclic_adjacency_def no_stale_def live_def stray_def seed_def succ_of_def
        pred_of_def atLeastLessThan_def)
qed

section \<open>The queries on a well-formed cell\<close>

text \<open>
  C3. On a cell with \<^verbatim>\<open>p > 0\<close> whose fan area is zero, \<^verbatim>\<open>centroid()\<close> returns \<^verbatim>\<open>(0, 0)\<close>
  and never divides by zero. The plane \<^verbatim>\<open>(1, 1, -4)\<close> touches the seed rectangle in
  its corner \<^verbatim>\<open>(-1, -1)\<close>; the cut leaves two vertices in that corner, the area is 0,
  and \<^verbatim>\<open>centroid\<close> computes \<^verbatim>\<open>third/tarea\<close> with \<^verbatim>\<open>tarea = 0\<close>.
\<close>

theorem centroid_divides_by_zero_area:
  "flag_and_count (plane cfg0 seed 1 1 (- 4)) = Some (True, 2)
   \<and> after_plane (plane cfg0 seed 1 1 (- 4)) area = Some (Inr 0)
   \<and> after_plane (plane cfg0 seed 1 1 (- 4)) centroid = Some (Inl DivisionByZero)"
  by (simp add: flag_and_count_def after_plane_def ev area_def area_loop.simps centroid_def
      centroid_loop.simps centroid_finish_def)

lemma reach_zero:
  assumes wf: "well_formed c" and k: "k \<in> live c"
  shows "\<exists>j. (succ_of c ^^ j) k = 0"
proof -
  from wf k obtain m where m: "(succ_of c ^^ m) 0 = k"
    unfolding well_formed_def single_cycle_def by blast
  from succ_returns[OF wf] obtain n where n: "0 < n" "(succ_of c ^^ n) 0 = 0" by blast
  from pow_period[OF n(2), of m] have "(succ_of c ^^ (m * n)) 0 = 0" .
  moreover have "m * n = (m * n - m) + m" using n(1) by simp
  ultimately have "(succ_of c ^^ ((m * n - m) + m)) 0 = 0" by simp
  then have "(succ_of c ^^ (m * n - m)) k = 0" using m by (simp only: funpow_add o_apply)
  then show ?thesis by blast
qed

lemma area_loop_returns:
  assumes wf: "well_formed c"
  shows "k \<in> live c \<Longrightarrow> (succ_of c ^^ j) k = 0 \<Longrightarrow>
    \<exists>a. area_loop c x y k dx1 dy1 ar = Some (Inr a)"
proof (induction j arbitrary: k dx1 dy1 ar)
  case 0
  then show ?case by (subst area_loop.simps) simp
next
  case (Suc j)
  show ?case
  proof (cases "k = 0")
    case True
    then show ?thesis by (subst area_loop.simps) simp
  next
    case False
    let ?n = "succ_of c k"
    have nl: "?n \<in> live c" using wf Suc.prems(1) by (rule wf_succ_live)
    have al: "allocated c (ed c (2 * k))"
      using live_allocated[OF wf nl] by (simp add: succ_of_def)
    have "(succ_of c ^^ j) ?n = 0" using Suc.prems(2) by (simp add: funpow_swap1)
    from Suc.IH[OF nl this] show ?thesis
      using False al by (subst area_loop.simps) (simp add: Let_def succ_of_def)
  qed
qed

lemma centroid_loop_returns:
  assumes wf: "well_formed c"
  shows "k \<in> live c \<Longrightarrow> (succ_of c ^^ j) k = 0 \<Longrightarrow>
    \<exists>a. centroid_loop c x y k dx1 dy1 ta cx cy = Some (Inr a)"
proof (induction j arbitrary: k dx1 dy1 ta cx cy)
  case 0
  then show ?case by (subst centroid_loop.simps) simp
next
  case (Suc j)
  show ?case
  proof (cases "k = 0")
    case True
    then show ?thesis by (subst centroid_loop.simps) simp
  next
    case False
    let ?n = "succ_of c k"
    have nl: "?n \<in> live c" using wf Suc.prems(1) by (rule wf_succ_live)
    have al: "allocated c (ed c (2 * k))"
      using live_allocated[OF wf nl] by (simp add: succ_of_def)
    have "(succ_of c ^^ j) ?n = 0" using Suc.prems(2) by (simp add: funpow_swap1)
    from Suc.IH[OF nl this] show ?thesis
      using False al by (subst centroid_loop.simps) (simp add: Let_def succ_of_def)
  qed
qed

lemma perimeter_loop_returns:
  assumes wf: "well_formed c"
  shows "k \<in> live c \<Longrightarrow> (succ_of c ^^ Suc j) k = 0 \<Longrightarrow>
    \<exists>a. perimeter_loop c k perim = Some (Inr a)"
proof (induction j arbitrary: k perim)
  case 0
  then have z: "ed c (2 * k) = 0" by (simp add: succ_of_def)
  have "allocated c 0" using live_allocated[OF wf wf_zero_live[OF wf]] .
  then show ?case using z by (subst perimeter_loop.simps) (simp add: Let_def)
next
  case (Suc j)
  let ?n = "succ_of c k"
  have nl: "?n \<in> live c" using wf Suc.prems(1) by (rule wf_succ_live)
  have al: "allocated c (ed c (2 * k))"
    using live_allocated[OF wf nl] by (simp add: succ_of_def)
  show ?case
  proof (cases "?n = 0")
    case True
    then show ?thesis using al by (subst perimeter_loop.simps) (simp add: Let_def succ_of_def)
  next
    case False
    have "(succ_of c ^^ Suc j) ?n = 0" using Suc.prems(2) by (simp add: funpow_swap1)
    from Suc.IH[OF nl this] show ?thesis
      using False al by (subst perimeter_loop.simps) (simp add: Let_def succ_of_def)
  qed
qed

lemma max_radius_loop_returns:
  "\<forall>i. k \<le> i \<and> i < p c \<longrightarrow> allocated c i \<Longrightarrow> \<exists>m. max_radius_loop c k r = Inr m"
proof (induction c k r rule: max_radius_loop.induct)
  case (1 c k r)
  show ?case
  proof (cases "k < p c")
    case False
    then show ?thesis by (subst max_radius_loop.simps) simp
  next
    case True
    with "1.prems" have al: "allocated c k" by simp
    have "\<forall>i. k + 1 \<le> i \<and> i < p c \<longrightarrow> allocated c i" using "1.prems" by simp
    from "1.IH"[OF True _ refl refl this] al
    show ?thesis using True al by (subst max_radius_loop.simps) (simp add: Let_def)
  qed
qed

lemma max_radius_squared_returns:
  assumes "usable c"
  shows "\<exists>m. max_radius_squared c = Inr m"
proof -
  have a0: "allocated c 0"
    using assms live_allocated[OF _ wf_zero_live] by (auto simp: usable_def)
  have "\<forall>i. 1 \<le> i \<and> i < p c \<longrightarrow> allocated c i"
    using assms by (auto simp: usable_def well_formed_def allocated_def)
  from max_radius_loop_returns[OF this] a0 show ?thesis
    by (simp add: max_radius_squared_def)
qed

lemma perimeter_returns:
  assumes "usable c"
  shows "\<exists>v. perimeter c = Some (Inr v)"
proof (cases "p c = 0")
  case True
  then show ?thesis by (simp add: perimeter_def)
next
  case False
  with assms have wf: "well_formed c" by (simp add: usable_def)
  have z: "0 \<in> live c" using wf by (rule wf_zero_live)
  from succ_returns[OF wf] obtain n where n: "0 < n" "(succ_of c ^^ n) 0 = 0" by blast
  then obtain j where "n = Suc j" by (cases n) auto
  with n have "(succ_of c ^^ Suc j) 0 = 0" by simp
  from perimeter_loop_returns[OF wf z this, of 0] obtain a where
    "perimeter_loop c 0 0 = Some (Inr a)" by blast
  then have "perimeter c = Some (Inr (0.5 * a))"
    using False live_allocated[OF wf z] by (simp add: perimeter_def)
  then show ?thesis by blast
qed

lemma fan_start:
  assumes wf: "well_formed c"
  shows "allocated c 0" "allocated c (ed c 0)" "allocated c (ed c (2 * ed c 0))"
    "ed c (2 * ed c 0) \<in> live c"
proof -
  have z: "0 \<in> live c" using wf by (rule wf_zero_live)
  have s: "succ_of c 0 \<in> live c" using wf z by (rule wf_succ_live)
  have t: "succ_of c (succ_of c 0) \<in> live c" using wf s by (rule wf_succ_live)
  show "allocated c 0" "allocated c (ed c 0)" "allocated c (ed c (2 * ed c 0))"
    "ed c (2 * ed c 0) \<in> live c"
    using live_allocated[OF wf z] live_allocated[OF wf s] live_allocated[OF wf t] t
    by (simp_all add: succ_of_def)
qed

lemma area_returns:
  assumes "usable c"
  shows "\<exists>v. area c = Some (Inr v)"
proof (cases "p c = 0")
  case True
  then show ?thesis by (simp add: area_def)
next
  case False
  with assms have wf: "well_formed c" by (simp add: usable_def)
  note f = fan_start[OF wf]
  from reach_zero[OF wf f(4)] obtain j where "(succ_of c ^^ j) (ed c (2 * ed c 0)) = 0" by blast
  from area_loop_returns[OF wf f(4) this] obtain a where
    "area_loop c (pts c 0) (pts c 1) (ed c (2 * ed c 0)) (pts c (2 * ed c 0) - pts c 0)
       (pts c (2 * ed c 0 + 1) - pts c 1) 0 = Some (Inr a)" by blast
  then have "area c = Some (Inr (0.125 * a))"
    using False f(1,2,3) by (simp add: area_def Let_def)
  then show ?thesis by blast
qed

lemma centroid_returns:
  assumes "usable c"
  shows "\<exists>v. printable (centroid c) = Some (Inr v)"
proof (cases "p c = 0")
  case True
  then show ?thesis by (simp add: centroid_def printable_def)
next
  case False
  with assms have wf: "well_formed c" by (simp add: usable_def)
  note f = fan_start[OF wf]
  from reach_zero[OF wf f(4)] obtain j where "(succ_of c ^^ j) (ed c (2 * ed c 0)) = 0" by blast
  from centroid_loop_returns[OF wf f(4) this] obtain a where
    "centroid_loop c (pts c 0) (pts c 1) (ed c (2 * ed c 0)) (pts c (2 * ed c 0) - pts c 0)
       (pts c (2 * ed c 0 + 1) - pts c 1) 0 0 0 = Some (Inr a)" by blast
  then have "centroid c = Some (centroid_finish (pts c 0) (pts c 1) a)"
    using False f(1,2,3) by (simp add: centroid_def Let_def)
  then show ?thesis
    by (cases a) (auto simp: printable_def centroid_finish_def Let_def)
qed

lemma then_emit_returns:
  "q = Some (Inr v) \<Longrightarrow> rest = Some (Inr out) \<Longrightarrow> then_emit q f rest = Some (Inr (f v @ out))"
  by (simp add: then_emit_def)

lemma control_returns:
  assumes us: "usable c" and rest: "rest = Some (Inr out)"
  shows "\<exists>items. control c i x y r d rest = Some (Inr (items @ out))
     \<and> (d \<noteq> newline \<longrightarrow> Chr newline \<notin> set items)"
proof -
  from max_radius_squared_returns[OF us] obtain m where m: "Some (max_radius_squared c) = Some (Inr m)" by auto
  from perimeter_returns[OF us] obtain pe where pe: "perimeter c = Some (Inr pe)" by blast
  from area_returns[OF us] obtain a where a: "area c = Some (Inr a)" by blast
  from centroid_returns[OF us] obtain ce where ce: "printable (centroid c) = Some (Inr ce)" by blast
  note e = then_emit_returns[OF _ rest]
  have sp: "CHR '' '' \<noteq> newline" "percent \<noteq> newline" by (simp_all add: newline_def percent_def)
  show ?thesis
    unfolding control_def e[OF m] e[OF pe] e[OF a] e[OF ce] e[OF refl]
    using sp by (cases ce) (auto split: prod.splits)
qed

lemma format_loop_returns:
  assumes us: "usable c"
  shows "\<exists>out. format_loop c i x y r fmt = Some (Inr out)
     \<and> (newline \<notin> set fmt \<longrightarrow> Chr newline \<notin> set out)"
using us
proof (induction c i x y r fmt rule: format_loop.induct)
  case (1 c i x y r)
  then show ?case by simp
next
  case (2 c i x y r ch)
  then show ?case by auto
next
  case (3 c i x y r ch d fmp)
  show ?case
  proof (cases "ch = nul")
    case True
    then show ?thesis by simp
  next
    case nn: False
    show ?thesis
    proof (cases "ch = percent")
      case True
      show ?thesis
      proof (cases "d = nul")
        case dn: True
        with True nn show ?thesis by simp
      next
        case dn: False
        from "3.IH"(1)[OF nn True dn "3.prems"] obtain out where
          out: "format_loop c i x y r fmp = Some (Inr out)"
          "newline \<notin> set fmp \<longrightarrow> Chr newline \<notin> set out" by blast
        from control_returns[OF "3.prems" out(1), of i x y r d] obtain items where
          "control c i x y r d (format_loop c i x y r fmp) = Some (Inr (items @ out))"
          "d \<noteq> newline \<longrightarrow> Chr newline \<notin> set items" by blast
        with out(2) True nn dn show ?thesis by auto
      qed
    next
      case False
      from "3.IH"(2)[OF nn False "3.prems"] obtain out where
        out: "format_loop c i x y r (d # fmp) = Some (Inr out)"
        "newline \<notin> set (d # fmp) \<longrightarrow> Chr newline \<notin> set out" by blast
      with False nn show ?thesis by (auto simp: then_emit_def)
    qed
  qed
qed

text \<open>
  C10, amended. For every format and every usable cell, \<^verbatim>\<open>output_custom\<close> returns, and
  what it wrote is the output for the format followed by one newline; when the format
  holds no newline character, this is the only newline, so the call writes one line.
\<close>

theorem output_custom_one_newline:
  assumes "usable c"
  shows "\<exists>out. output_custom c format i x y r = Some (Inr (out @ [Chr newline]))
     \<and> (newline \<notin> set format \<longrightarrow> Chr newline \<notin> set out)"
  using format_loop_returns[OF assms, of i x y r format]
  by (auto simp: output_custom_def)

text \<open>
  C10 as stated: every call writes exactly one line, whatever the format. A newline in
  the format is passed through like any character: the format that consists of a newline
  gives two.
\<close>

theorem newline_in_format_passes:
  "output_custom seed [newline] 0 0 0 0 = Some (Inr [Chr newline, Chr newline])"
  by (simp add: output_custom_def nul_def percent_def newline_def)

theorem output_custom_one_newline_witness:
  "usable seed \<and> newline \<notin> set ''%w %a''
   \<and> output_custom seed ''%w %a'' 7 0 0 0
       = Some (Inr ([Decimal 4, Chr CHR '' '', General 4] @ [Chr newline]))
   \<and> Chr newline \<notin> set [Decimal 4, Chr CHR '' '', General 4]"
proof -
  have "usable seed" using seed_well_formed by (simp add: usable_def)
  from output_custom_one_newline[OF this, of "''%w %a''" 7 0 0 0] this
  show ?thesis
    by (simp add: output_custom_def nul_def percent_def newline_def control_def then_emit_def
        area_def area_loop.simps seed_def allocated_def)
qed

end
